theory Spec2Isabelle
  imports
    Complex_Main
    "HOL-Library.Word"
    "HOL-Library.Char_ord"
    "HOL-Library.List_Lexorder"
    "HOL-Library.Multiset"
begin

unbundle bit_operations_syntax

section \<open>JSON values\<close>

text \<open>
  The proxy handles decoded JSON: request dictionaries, upstream payloads and cached
  payloads are Python values built from \<open>None\<close>, \<open>bool\<close>, \<open>int\<close>, \<open>float\<close>, \<open>str\<close>,
  \<open>list\<close> and \<open>dict\<close>. A \<open>dict\<close> is an association list in insertion order (Python
  dictionaries keep it); a well-formed one has distinct keys. A \<open>str\<close> is a list of code
  points below 256, one \<open>char\<close> each. A finite \<open>float\<close> is the real number it denotes.
  The decoder of the standard library also reads the constants \<open>NaN\<close>, \<open>Infinity\<close> and
  \<open>-Infinity\<close>, and the encoder writes them; every \<open>NaN\<close> it reads is one and the same
  object.
\<close>

datatype json =
    JNull
  | JBool bool
  | JInt int
  | JFloat real
  | JNaN
  | JInfinity
  | JNegInfinity
  | JStr string
  | JArr "json list"
  | JObj "(string \<times> json) list"

type_synonym pydict = "(string \<times> json) list"

section \<open>\<open>json.dumps(data, sort_keys=True)\<close>\<close>

definition hex_digit :: "nat \<Rightarrow> char" where
  "hex_digit n = ''0123456789abcdef'' ! n"

definition digit_char :: "nat \<Rightarrow> char" where
  "digit_char n = ''0123456789'' ! n"

fun str_nat :: "nat \<Rightarrow> string" where
  "str_nat n = (if n < 10 then [digit_char n] else str_nat (n div 10) @ [digit_char (n mod 10)])"

declare str_nat.simps [simp del]

definition str_int :: "int \<Rightarrow> string" where
  "str_int i = (if i < 0 then CHR ''-'' # str_nat (nat (- i)) else str_nat (nat i))"

text \<open>
  The string encoder of \<open>json.dumps\<close> with its default \<open>ensure_ascii=True\<close>: the quote and
  the backslash are escaped, the five control characters with a short escape use it, every
  other code point outside \<open>0x20..0x7E\<close> becomes \<open>\uXXXX\<close> in lower-case hexadecimal.
\<close>

definition escape_char :: "char \<Rightarrow> string" where
  "escape_char c =
     (if c = CHR 0x22 then [CHR 0x5C, CHR 0x22]
      else if c = CHR 0x5C then [CHR 0x5C, CHR 0x5C]
      else if c = CHR 0x0A then [CHR 0x5C, CHR ''n'']
      else if c = CHR 0x0D then [CHR 0x5C, CHR ''r'']
      else if c = CHR 0x09 then [CHR 0x5C, CHR ''t'']
      else if c = CHR 0x08 then [CHR 0x5C, CHR ''b'']
      else if c = CHR 0x0C then [CHR 0x5C, CHR ''f'']
      else if 0x20 \<le> (of_char c :: nat) \<and> (of_char c :: nat) \<le> 0x7E then [c]
      else [CHR 0x5C, CHR ''u'', CHR ''0'', CHR ''0'',
            hex_digit ((of_char c :: nat) div 16), hex_digit ((of_char c :: nat) mod 16)])"

definition encode_basestring_ascii :: "string \<Rightarrow> string" where
  "encode_basestring_ascii s = [CHR 0x22] @ concat (map escape_char s) @ [CHR 0x22]"

fun join :: "string \<Rightarrow> string list \<Rightarrow> string" where
  "join sep [] = []"
| "join sep [x] = x"
| "join sep (x # y # ys) = x @ sep @ join sep (y # ys)"

text \<open>
  \<open>float_repr\<close> is \<open>float.__repr__\<close>, the interpreter's shortest round-trip formatting. It
  is not part of the repository and is a parameter of the serialiser. With
  \<open>sort_keys=True\<close> the items of every dictionary, at every depth, are written in
  ascending key order (code-point order on \<open>str\<close>); the item and key separators are the
  defaults \<open>", "\<close> and \<open>": "\<close>.
\<close>

fun dumps_sorted :: "(real \<Rightarrow> string) \<Rightarrow> json \<Rightarrow> string" where
  "dumps_sorted float_repr JNull = ''null''"
| "dumps_sorted float_repr (JBool b) = (if b then ''true'' else ''false'')"
| "dumps_sorted float_repr (JInt i) = str_int i"
| "dumps_sorted float_repr (JFloat r) = float_repr r"
| "dumps_sorted float_repr JNaN = ''NaN''"
| "dumps_sorted float_repr JInfinity = ''Infinity''"
| "dumps_sorted float_repr JNegInfinity = ''-Infinity''"
| "dumps_sorted float_repr (JStr s) = encode_basestring_ascii s"
| "dumps_sorted float_repr (JArr xs) =
     ''['' @ join '', '' (map (dumps_sorted float_repr) xs) @ '']''"
| "dumps_sorted float_repr (JObj d) =
     ''{'' @ join '', ''
        (map (\<lambda>(k, v). encode_basestring_ascii k @ '': '' @ dumps_sorted float_repr v)
           (sort_key fst d)) @ ''}''"

section \<open>\<open>hashlib.md5\<close>\<close>

text \<open>
  The MD5 message digest (RFC 1321) over bytes: padding to a multiple of 64 bytes with the
  bit length in the last eight, little-endian 32-bit words, four rounds of sixteen steps
  per block.
\<close>

type_synonym u32 = "32 word"
type_synonym byte = "8 word"
type_synonym md5_state = "u32 \<times> u32 \<times> u32 \<times> u32"

definition md5_K :: "u32 list" where
  "md5_K =
    [0xd76aa478, 0xe8c7b756, 0x242070db, 0xc1bdceee, 0xf57c0faf, 0x4787c62a, 0xa8304613,
     0xfd469501, 0x698098d8, 0x8b44f7af, 0xffff5bb1, 0x895cd7be, 0x6b901122, 0xfd987193,
     0xa679438e, 0x49b40821, 0xf61e2562, 0xc040b340, 0x265e5a51, 0xe9b6c7aa, 0xd62f105d,
     0x02441453, 0xd8a1e681, 0xe7d3fbc8, 0x21e1cde6, 0xc33707d6, 0xf4d50d87, 0x455a14ed,
     0xa9e3e905, 0xfcefa3f8, 0x676f02d9, 0x8d2a4c8a, 0xfffa3942, 0x8771f681, 0x6d9d6122,
     0xfde5380c, 0xa4beea44, 0x4bdecfa9, 0xf6bb4b60, 0xbebfbc70, 0x289b7ec6, 0xeaa127fa,
     0xd4ef3085, 0x04881d05, 0xd9d4d039, 0xe6db99e5, 0x1fa27cf8, 0xc4ac5665, 0xf4292244,
     0x432aff97, 0xab9423a7, 0xfc93a039, 0x655b59c3, 0x8f0ccc92, 0xffeff47d, 0x85845dd1,
     0x6fa87e4f, 0xfe2ce6e0, 0xa3014314, 0x4e0811a1, 0xf7537e82, 0xbd3af235, 0x2ad7d2bb,
     0xeb86d391]"

definition md5_S :: "nat list" where
  "md5_S =
    [7, 12, 17, 22, 7, 12, 17, 22, 7, 12, 17, 22, 7, 12, 17, 22,
     5, 9, 14, 20, 5, 9, 14, 20, 5, 9, 14, 20, 5, 9, 14, 20,
     4, 11, 16, 23, 4, 11, 16, 23, 4, 11, 16, 23, 4, 11, 16, 23,
     6, 10, 15, 21, 6, 10, 15, 21, 6, 10, 15, 21, 6, 10, 15, 21]"

definition rotl32 :: "u32 \<Rightarrow> nat \<Rightarrow> u32" where
  "rotl32 x n = push_bit n x OR drop_bit (32 - n) x"

definition md5_mix :: "nat \<Rightarrow> u32 \<Rightarrow> u32 \<Rightarrow> u32 \<Rightarrow> u32" where
  "md5_mix i b c d =
     (if i < 16 then (b AND c) OR (NOT b AND d)
      else if i < 32 then (d AND b) OR (NOT d AND c)
      else if i < 48 then b XOR c XOR d
      else c XOR (b OR NOT d))"

definition md5_idx :: "nat \<Rightarrow> nat" where
  "md5_idx i =
     (if i < 16 then i
      else if i < 32 then (5 * i + 1) mod 16
      else if i < 48 then (3 * i + 5) mod 16
      else (7 * i) mod 16)"

definition md5_step :: "u32 list \<Rightarrow> nat \<Rightarrow> md5_state \<Rightarrow> md5_state" where
  "md5_step m i st =
     (case st of (a, b, c, d) \<Rightarrow>
        (d, b + rotl32 (a + md5_mix i b c d + md5_K ! i + m ! md5_idx i) (md5_S ! i), b, c))"

definition md5_block :: "md5_state \<Rightarrow> u32 list \<Rightarrow> md5_state" where
  "md5_block st m =
     (case st of (a0, b0, c0, d0) \<Rightarrow>
        (case fold (md5_step m) [0..<64] st of (a, b, c, d) \<Rightarrow>
           (a0 + a, b0 + b, c0 + c, d0 + d)))"

fun le_words :: "byte list \<Rightarrow> u32 list" where
  "le_words (b0 # b1 # b2 # b3 # bs) =
     (ucast b0 OR push_bit 8 (ucast b1) OR push_bit 16 (ucast b2) OR push_bit 24 (ucast b3))
       # le_words bs"
| "le_words _ = []"

definition u32_bytes :: "u32 \<Rightarrow> byte list" where
  "u32_bytes w = [ucast w, ucast (drop_bit 8 w), ucast (drop_bit 16 w), ucast (drop_bit 24 w)]"

definition u64_bytes :: "64 word \<Rightarrow> byte list" where
  "u64_bytes w = map (\<lambda>i. ucast (drop_bit (8 * i) w)) [0..<8]"

definition md5_pad :: "byte list \<Rightarrow> byte list" where
  "md5_pad bs =
     bs @ [0x80] @ replicate ((119 - length bs mod 64) mod 64) 0
        @ u64_bytes (8 * word_of_nat (length bs))"

fun blocks :: "u32 list \<Rightarrow> u32 list list" where
  "blocks [] = []"
| "blocks (w # ws) = take 16 (w # ws) # blocks (drop 16 (w # ws))"

definition md5 :: "byte list \<Rightarrow> byte list" where
  "md5 bs =
     (case fold (\<lambda>m st. md5_block st m) (blocks (le_words (md5_pad bs)))
             (0x67452301, 0xefcdab89, 0x98badcfe, 0x10325476) of
        (a, b, c, d) \<Rightarrow> concat (map u32_bytes [a, b, c, d]))"

definition hexdigest :: "byte list \<Rightarrow> string" where
  "hexdigest bs =
     concat (map (\<lambda>b. [hex_digit (unat b div 16), hex_digit (unat b mod 16)]) bs)"

section \<open>Cache keys\<close>

text \<open>\<open>str.encode()\<close>: UTF-8, one byte below \<open>0x80\<close> and two bytes from there to \<open>0xFF\<close>.\<close>

definition utf8_char :: "char \<Rightarrow> byte list" where
  "utf8_char c =
     (if (of_char c :: nat) < 0x80 then [of_char c]
      else [0xC0 OR drop_bit 6 (of_char c), 0x80 OR (of_char c AND 0x3F)])"

definition encode :: "string \<Rightarrow> byte list" where
  "encode s = concat (map utf8_char s)"

definition cache_string :: "(real \<Rightarrow> string) \<Rightarrow> string \<Rightarrow> pydict \<Rightarrow> string" where
  "cache_string float_repr endpoint data = endpoint @ '':'' @ dumps_sorted float_repr (JObj data)"

definition generate_cache_key :: "(real \<Rightarrow> string) \<Rightarrow> string \<Rightarrow> pydict \<Rightarrow> string" where
  "generate_cache_key float_repr endpoint data =
     hexdigest (md5 (encode (cache_string float_repr endpoint data)))"

section \<open>The world the handlers run in\<close>

text \<open>
  Every exception of the source is a value. \<open>HTTPException\<close> carries the status code and
  the constant part of its detail message (the source appends the text of the library
  exception). \<open>RequestValidationError\<close> is the rejection of a request body or parameter
  by the declared field constraints. \<open>ValueError\<close> is the JSON decoding error of
  \<open>response.json()\<close>. \<open>RedisError\<close> is any exception of a cache-store command.
\<close>

datatype error =
    HTTPException nat string
  | RequestValidationError
  | TypeError
  | KeyError
  | ValueError
  | RedisError

text \<open>
  What one \<open>http_client.post\<close> followed by \<open>raise_for_status\<close> and \<open>response.json()\<close>
  can do: fail to get a response, get a response with an error status, or get a
  successful response whose body is JSON text or is not.
\<close>

datatype http_outcome =
    RequestError
  | HTTPStatusError nat
  | Response "json option"

datatype io_event =
    RedisGet string
  | RedisSetex string nat json
  | HttpPost string pydict

text \<open>
  The two global clients and what they talk to. \<open>http_client\<close> and \<open>redis_client\<close> tell
  whether the global is set (\<open>startup_event\<close> leaves \<open>redis_client\<close> unset when the ping
  fails). \<open>redis_up\<close> tells whether the store answers; when it does not, each command
  raises. \<open>redis_data\<close> holds each entry with the second at which it expires, \<open>now\<close> is the
  store's clock. An entry is held as the JSON value whose \<open>json.dumps\<close> text the store
  keeps: \<open>json.loads\<close> of that text is the value again. \<open>laravel\<close> is the upstream API, the
  outcome of a POST to a path with a JSON body. \<open>io_log\<close> records every command sent to
  the store and every request sent upstream, in order.
\<close>

record world =
  http_client :: bool
  redis_client :: bool
  redis_up :: bool
  now :: nat
  redis_data :: "string \<rightharpoonup> json \<times> nat"
  laravel :: "string \<Rightarrow> pydict \<Rightarrow> http_outcome"
  io_log :: "io_event list"

definition CACHE_TTL :: nat where
  "CACHE_TTL = 3600"

definition redis_get :: "world \<Rightarrow> string \<Rightarrow> (error + json option) \<times> world" where
  "redis_get w key =
     (let w' = w\<lparr>io_log := io_log w @ [RedisGet key]\<rparr> in
      if redis_up w then
        (Inr (case redis_data w key of
                None \<Rightarrow> None
              | Some (v, expires) \<Rightarrow> if now w < expires then Some v else None), w')
      else (Inl RedisError, w'))"

definition redis_setex :: "world \<Rightarrow> string \<Rightarrow> nat \<Rightarrow> json \<Rightarrow> (error + unit) \<times> world" where
  "redis_setex w key ttl v =
     (let w' = w\<lparr>io_log := io_log w @ [RedisSetex key ttl v]\<rparr> in
      if redis_up w then (Inr (), w'\<lparr>redis_data := (redis_data w)(key \<mapsto> (v, now w + ttl))\<rparr>)
      else (Inl RedisError, w'))"

definition get_cached_result :: "world \<Rightarrow> string \<Rightarrow> json option \<times> world" where
  "get_cached_result w cache_key =
     (if \<not> redis_client w then (None, w)
      else case redis_get w cache_key of
             (Inr (Some cached_data), w') \<Rightarrow> (Some cached_data, w')
           | (Inr None, w') \<Rightarrow> (None, w')
           | (Inl e, w') \<Rightarrow> (None, w'))"

definition set_cached_result :: "world \<Rightarrow> string \<Rightarrow> json \<Rightarrow> world" where
  "set_cached_result w cache_key data =
     (if \<not> redis_client w then w
      else case redis_setex w cache_key CACHE_TTL data of
             (Inr u, w') \<Rightarrow> w'
           | (Inl e, w') \<Rightarrow> w')"

definition proxy_laravel_request :: "world \<Rightarrow> string \<Rightarrow> pydict \<Rightarrow> (error + json) \<times> world" where
  "proxy_laravel_request w endpoint data =
     (if \<not> http_client w then (Inl (HTTPException 500 ''HTTP client not initialized''), w)
      else
        (let w' = w\<lparr>io_log := io_log w @ [HttpPost endpoint data]\<rparr> in
         case laravel w endpoint data of
           RequestError \<Rightarrow> (Inl (HTTPException 500 ''Request failed''), w')
         | HTTPStatusError status_code \<Rightarrow> (Inl (HTTPException status_code ''Laravel API error''), w')
         | Response None \<Rightarrow> (Inl ValueError, w')
         | Response (Some body) \<Rightarrow> (Inr body, w')))"

section \<open>Python operations on JSON values\<close>

text \<open>Truth value of an object, for \<open>if cached_result:\<close>.\<close>

fun truthy :: "json \<Rightarrow> bool" where
  "truthy JNull = False"
| "truthy (JBool b) = b"
| "truthy (JInt i) = (i \<noteq> 0)"
| "truthy (JFloat r) = (r \<noteq> 0)"
| "truthy JNaN = True"
| "truthy JInfinity = True"
| "truthy JNegInfinity = True"
| "truthy (JStr s) = (s \<noteq> [])"
| "truthy (JArr xs) = (xs \<noteq> [])"
| "truthy (JObj d) = (d \<noteq> [])"

text \<open>\<open>d[k] = v\<close> on a dictionary: an existing key keeps its place, a new one goes last.\<close>

fun dict_set :: "pydict \<Rightarrow> string \<Rightarrow> json \<Rightarrow> pydict" where
  "dict_set [] k v = [(k, v)]"
| "dict_set ((k', v') # d) k v = (if k' = k then (k, v) # d else (k', v') # dict_set d k v)"

text \<open>\<open>obj[k] = v\<close> and \<open>obj[k]\<close> for a string \<open>k\<close>: only a dictionary accepts a string subscript.\<close>

fun setitem :: "json \<Rightarrow> string \<Rightarrow> json \<Rightarrow> error + json" where
  "setitem (JObj d) k v = Inr (JObj (dict_set d k v))"
| "setitem _ k v = Inl TypeError"

fun getitem :: "json \<Rightarrow> string \<Rightarrow> error + json" where
  "getitem (JObj d) k = (case map_of d k of None \<Rightarrow> Inl KeyError | Some v \<Rightarrow> Inr v)"
| "getitem _ k = Inl TypeError"

text \<open>What \<open>list.extend\<close> appends: the items of a list, the characters of a string, the
  keys of a dictionary; nothing else is iterable.\<close>

fun iter :: "json \<Rightarrow> error + json list" where
  "iter (JArr xs) = Inr xs"
| "iter (JStr s) = Inr (map (\<lambda>c. JStr [c]) s)"
| "iter (JObj d) = Inr (map (\<lambda>(k, v). JStr k) d)"
| "iter _ = Inl TypeError"

text \<open>
  The numbers are \<open>bool\<close>, \<open>int\<close> and \<open>float\<close>; they compare with one another by value,
  \<open>True\<close> as 1 and \<open>False\<close> as 0, an \<open>int\<close> with a \<open>float\<close> exactly.
\<close>

datatype number = NegInf | Finite real | PosInf | NotANumber

fun as_number :: "json \<Rightarrow> number option" where
  "as_number (JBool b) = Some (Finite (if b then 1 else 0))"
| "as_number (JInt i) = Some (Finite (real_of_int i))"
| "as_number (JFloat r) = Some (Finite r)"
| "as_number JNaN = Some NotANumber"
| "as_number JInfinity = Some PosInf"
| "as_number JNegInfinity = Some NegInf"
| "as_number _ = None"

text \<open>
  Membership in a \<open>set\<close> goes by hash and equality: \<open>True\<close>, \<open>1\<close> and \<open>1.0\<close> are one
  element, the one NaN object is an element equal to itself, a string is equal to strings
  only, lists and dictionaries are unhashable.
\<close>

datatype hkey = HNone | HNum number | HStr string

fun hash_key :: "json \<Rightarrow> error + hkey" where
  "hash_key JNull = Inr HNone"
| "hash_key (JBool b) = Inr (HNum (Finite (if b then 1 else 0)))"
| "hash_key (JInt i) = Inr (HNum (Finite (real_of_int i)))"
| "hash_key (JFloat r) = Inr (HNum (Finite r))"
| "hash_key JNaN = Inr (HNum NotANumber)"
| "hash_key JInfinity = Inr (HNum PosInf)"
| "hash_key JNegInfinity = Inr (HNum NegInf)"
| "hash_key (JStr s) = Inr (HStr s)"
| "hash_key (JArr xs) = Inl TypeError"
| "hash_key (JObj d) = Inl TypeError"

text \<open>\<open>xs[:k]\<close>: a negative bound counts from the end.\<close>

definition slice_to :: "'a list \<Rightarrow> int \<Rightarrow> 'a list" where
  "slice_to xs k = (if k < 0 then take (nat (int (length xs) + k)) xs else take (nat k) xs)"

section \<open>Python comparisons\<close>

text \<open>\<open>a < b\<close> on numbers: false whenever one of them is NaN.\<close>

fun number_lt :: "number \<Rightarrow> number \<Rightarrow> bool" where
  "number_lt (Finite x) (Finite y) = (x < y)"
| "number_lt (Finite x) PosInf = True"
| "number_lt NegInf (Finite y) = True"
| "number_lt NegInf PosInf = True"
| "number_lt _ _ = False"

text \<open>
  Equality as containers use it (\<open>PyObject_RichCompareBool\<close> with \<open>Py_EQ\<close>): an object is
  equal to itself, otherwise \<open>==\<close> decides. The decoder gives one and the same object for
  every \<open>NaN\<close> it reads, so here NaN is equal to NaN, although \<open>nan == nan\<close> is false.
  Numbers are equal by value, strings to strings, \<open>None\<close> to \<open>None\<close>, lists item by item,
  dictionaries when they have the same keys with equal values.
\<close>

fun py_eq :: "json \<Rightarrow> json \<Rightarrow> bool"
  and py_eq_list :: "json list \<Rightarrow> json list \<Rightarrow> bool"
  and py_eq_items :: "(string \<times> json) list \<Rightarrow> (string \<times> json) list \<Rightarrow> bool" where
  "py_eq (JArr xs) b = (case b of JArr ys \<Rightarrow> py_eq_list xs ys | _ \<Rightarrow> False)"
| "py_eq (JObj d) b =
     (case b of JObj d' \<Rightarrow> length d = length d' \<and> py_eq_items d d' | _ \<Rightarrow> False)"
| "py_eq (JStr s) b = (case b of JStr t \<Rightarrow> s = t | _ \<Rightarrow> False)"
| "py_eq JNull b = (case b of JNull \<Rightarrow> True | _ \<Rightarrow> False)"
| "py_eq a b =
     (case (as_number a, as_number b) of (Some m, Some n) \<Rightarrow> m = n | _ \<Rightarrow> False)"
| "py_eq_list [] ys = (ys = [])"
| "py_eq_list (x # xs) ys =
     (case ys of [] \<Rightarrow> False | y # ys' \<Rightarrow> py_eq x y \<and> py_eq_list xs ys')"
| "py_eq_items [] d' = True"
| "py_eq_items ((k, v) # d) d' =
     (case map_of d' k of None \<Rightarrow> False | Some v' \<Rightarrow> py_eq v v' \<and> py_eq_items d d')"

text \<open>
  \<open>a < b\<close>. Numbers compare with numbers and strings with strings, by code point. Two
  lists compare at the first position where their items are not equal, and by length
  when there is none. Every other pair raises \<open>TypeError\<close>.
\<close>

fun py_lt :: "json \<Rightarrow> json \<Rightarrow> error + bool"
  and py_lt_list :: "json list \<Rightarrow> json list \<Rightarrow> error + bool" where
  "py_lt (JArr xs) b = (case b of JArr ys \<Rightarrow> py_lt_list xs ys | _ \<Rightarrow> Inl TypeError)"
| "py_lt (JStr s) b = (case b of JStr t \<Rightarrow> Inr (s < t) | _ \<Rightarrow> Inl TypeError)"
| "py_lt a b =
     (case (as_number a, as_number b) of
        (Some m, Some n) \<Rightarrow> Inr (number_lt m n)
      | _ \<Rightarrow> Inl TypeError)"
| "py_lt_list [] ys = Inr (ys \<noteq> [])"
| "py_lt_list (x # xs) ys =
     (case ys of
        [] \<Rightarrow> Inr False
      | y # ys' \<Rightarrow> if py_eq x y then py_lt_list xs ys' else py_lt x y)"

section \<open>\<open>list.sort\<close>\<close>

text \<open>
  \<open>list.sort\<close> belongs to the interpreter, not to the repository. The handler's answer
  depends on what it does with any keys, also keys that \<open><\<close> does not order (NaN) or
  refuses to compare, so the sort is modelled as CPython 3.11 implements it
  (\<open>Objects/listobject.c\<close>): natural runs are counted and short ones extended by binary
  insertion to \<open>minrun\<close> items, runs are merged as the powersort policy says, merging
  gallops. The only question the sort asks of two items is \<open><\<close>, which answers or raises;
  what it raises ends the sort.
\<close>

type_synonym 'a less = "'a \<Rightarrow> 'a \<Rightarrow> error + bool"

text \<open>\<open>merge_compute_minrun\<close>: the length below which a run is extended.\<close>

fun merge_compute_minrun :: "nat \<Rightarrow> nat \<Rightarrow> nat" where
  "merge_compute_minrun n r =
     (if 64 \<le> n then merge_compute_minrun (n div 2) (if odd n then 1 else r) else n + r)"

declare merge_compute_minrun.simps [simp del]

text \<open>\<open>count_run\<close>: the length of the run at the start of the list and whether it is
  strictly descending. \<open>count_asc\<close> and \<open>count_desc\<close> are its two loops, \<open>prev\<close> the
  item before \<open>x\<close> and \<open>n\<close> the items counted so far.\<close>

fun count_asc :: "'a less \<Rightarrow> 'a \<Rightarrow> 'a list \<Rightarrow> nat \<Rightarrow> error + nat" where
  "count_asc lt prev [] n = Inr n"
| "count_asc lt prev (x # xs) n =
     (case lt x prev of
        Inl e \<Rightarrow> Inl e
      | Inr k \<Rightarrow> if k then Inr n else count_asc lt x xs (n + 1))"

fun count_desc :: "'a less \<Rightarrow> 'a \<Rightarrow> 'a list \<Rightarrow> nat \<Rightarrow> error + nat" where
  "count_desc lt prev [] n = Inr n"
| "count_desc lt prev (x # xs) n =
     (case lt x prev of
        Inl e \<Rightarrow> Inl e
      | Inr k \<Rightarrow> if k then count_desc lt x xs (n + 1) else Inr n)"

fun count_run :: "'a less \<Rightarrow> 'a list \<Rightarrow> error + nat \<times> bool" where
  "count_run lt [] = Inr (0, False)"
| "count_run lt [x] = Inr (1, False)"
| "count_run lt (x0 # x1 # xs) =
     (case lt x1 x0 of
        Inl e \<Rightarrow> Inl e
      | Inr k \<Rightarrow>
          if k then (case count_desc lt x1 xs 2 of Inl e \<Rightarrow> Inl e | Inr n \<Rightarrow> Inr (n, True))
          else (case count_asc lt x1 xs 2 of Inl e \<Rightarrow> Inl e | Inr n \<Rightarrow> Inr (n, False)))"

text \<open>\<open>binarysort\<close>: each item of \<open>todo\<close> is inserted into the sorted \<open>run\<close> at the place a
  binary search finds, after the items it is not less than.\<close>

function bisect :: "'a less \<Rightarrow> 'a \<Rightarrow> 'a list \<Rightarrow> nat \<Rightarrow> nat \<Rightarrow> error + nat" where
  "bisect lt pivot a l r =
     (case lt pivot (a ! (l + (r - l) div 2)) of
        Inl e \<Rightarrow> Inl e
      | Inr k \<Rightarrow>
          if k then (if l < l + (r - l) div 2 then bisect lt pivot a l (l + (r - l) div 2) else Inr l)
          else (if l + (r - l) div 2 + 1 < r then bisect lt pivot a (l + (r - l) div 2 + 1) r
                else Inr (l + (r - l) div 2 + 1)))"
  by pat_completeness auto
termination
  by (relation "measure (\<lambda>(lt, pivot, a, l, r). r - l)") auto

declare bisect.simps [simp del]

fun binarysort :: "'a less \<Rightarrow> 'a list \<Rightarrow> 'a list \<Rightarrow> error + 'a list" where
  "binarysort lt run [] = Inr run"
| "binarysort lt run (pivot # todo) =
     (case bisect lt pivot run 0 (length run) of
        Inl e \<Rightarrow> Inl e
      | Inr l \<Rightarrow> binarysort lt (take l run @ pivot # drop l run) todo)"

text \<open>\<open>gallop_left\<close> and \<open>gallop_right\<close>: where \<open>key\<close> belongs in the sorted list \<open>a\<close>, before
  (left) or after (right) the items equal to it, searched from the index \<open>hint\<close> in steps
  that double (\<open>gallop_loop\<close>) and then by bisection (\<open>search_loop\<close>).\<close>

definition negate :: "error + bool \<Rightarrow> error + bool" where
  "negate r = (case r of Inl e \<Rightarrow> Inl e | Inr k \<Rightarrow> Inr (\<not> k))"

function gallop_loop :: "(nat \<Rightarrow> error + bool) \<Rightarrow> nat \<Rightarrow> nat \<Rightarrow> nat \<Rightarrow> error + nat \<times> nat" where
  "gallop_loop further maxofs lastofs ofs =
     (if ofs < maxofs then
        (case further ofs of
           Inl e \<Rightarrow> Inl e
         | Inr k \<Rightarrow> if k then gallop_loop further maxofs ofs (2 * ofs + 1) else Inr (lastofs, ofs))
      else Inr (lastofs, ofs))"
  by pat_completeness auto
termination
  by (relation "measure (\<lambda>(further, maxofs, lastofs, ofs). maxofs - ofs)") auto

declare gallop_loop.simps [simp del]

function search_loop :: "(nat \<Rightarrow> error + bool) \<Rightarrow> nat \<Rightarrow> nat \<Rightarrow> error + nat" where
  "search_loop right lastofs ofs =
     (if lastofs < ofs then
        (case right (lastofs + (ofs - lastofs) div 2) of
           Inl e \<Rightarrow> Inl e
         | Inr k \<Rightarrow>
             if k then search_loop right (lastofs + (ofs - lastofs) div 2 + 1) ofs
             else search_loop right lastofs (lastofs + (ofs - lastofs) div 2))
      else Inr ofs)"
  by pat_completeness auto
termination
  by (relation "measure (\<lambda>(right, lastofs, ofs). ofs - lastofs)") auto

declare search_loop.simps [simp del]

definition gallop_left :: "'a less \<Rightarrow> 'a \<Rightarrow> 'a list \<Rightarrow> nat \<Rightarrow> error + nat" where
  "gallop_left lt key a hint =
     (case lt (a ! hint) key of
        Inl e \<Rightarrow> Inl e
      | Inr k \<Rightarrow>
          if k then
            (case gallop_loop (\<lambda>ofs. lt (a ! (hint + ofs)) key) (length a - hint) 0 1 of
               Inl e \<Rightarrow> Inl e
             | Inr (lastofs, ofs) \<Rightarrow>
                 search_loop (\<lambda>m. lt (a ! m) key) (lastofs + hint + 1)
                   (min ofs (length a - hint) + hint))
          else
            (case gallop_loop (\<lambda>ofs. negate (lt (a ! (hint - ofs)) key)) (hint + 1) 0 1 of
               Inl e \<Rightarrow> Inl e
             | Inr (lastofs, ofs) \<Rightarrow>
                 search_loop (\<lambda>m. lt (a ! m) key) (hint + 1 - min ofs (hint + 1))
                   (hint - lastofs)))"

definition gallop_right :: "'a less \<Rightarrow> 'a \<Rightarrow> 'a list \<Rightarrow> nat \<Rightarrow> error + nat" where
  "gallop_right lt key a hint =
     (case lt key (a ! hint) of
        Inl e \<Rightarrow> Inl e
      | Inr k \<Rightarrow>
          if k then
            (case gallop_loop (\<lambda>ofs. lt key (a ! (hint - ofs))) (hint + 1) 0 1 of
               Inl e \<Rightarrow> Inl e
             | Inr (lastofs, ofs) \<Rightarrow>
                 search_loop (\<lambda>m. negate (lt key (a ! m))) (hint + 1 - min ofs (hint + 1))
                   (hint - lastofs))
          else
            (case gallop_loop (\<lambda>ofs. negate (lt key (a ! (hint + ofs)))) (length a - hint) 0 1 of
               Inl e \<Rightarrow> Inl e
             | Inr (lastofs, ofs) \<Rightarrow>
                 search_loop (\<lambda>m. negate (lt key (a ! m))) (lastofs + hint + 1)
                   (min ofs (length a - hint) + hint)))"

text \<open>\<open>merge_lo\<close> and \<open>merge_hi\<close>: the merge of two adjacent runs \<open>a\<close> and \<open>b\<close>, from the left
  when \<open>a\<close> is the shorter and from the right otherwise. \<open>out\<close> is the part of the result
  already written. Each has a loop that takes one item at a time and counts how often
  the same run wins, and a galloping loop entered after \<open>min_gallop\<close> wins in a row;
  the second component of the result is \<open>ms->min_gallop\<close> as the merge leaves it.\<close>

definition MIN_GALLOP :: nat where
  "MIN_GALLOP = 7"

function lo_seq ::
    "'a less \<Rightarrow> 'a list \<Rightarrow> 'a list \<Rightarrow> 'a list \<Rightarrow> nat \<Rightarrow> nat \<Rightarrow> nat \<Rightarrow> nat \<Rightarrow> error + 'a list \<times> nat"
  and lo_gallop ::
    "'a less \<Rightarrow> 'a list \<Rightarrow> 'a list \<Rightarrow> 'a list \<Rightarrow> nat \<Rightarrow> nat \<Rightarrow> error + 'a list \<times> nat"
where
  "lo_seq lt out a b acount bcount min_gallop ms_min_gallop =
     (if a = [] \<or> b = [] then Inr (out @ a @ b, ms_min_gallop)
      else
        (case lt (hd b) (hd a) of
           Inl e \<Rightarrow> Inl e
         | Inr k \<Rightarrow>
             if k then
               (if tl b = [] then Inr (out @ [hd b] @ a, ms_min_gallop)
                else if min_gallop \<le> bcount + 1
                then lo_gallop lt (out @ [hd b]) a (tl b) (min_gallop + 1) ms_min_gallop
                else lo_seq lt (out @ [hd b]) a (tl b) 0 (bcount + 1) min_gallop ms_min_gallop)
             else
               (if length (tl a) = 1 then Inr (out @ [hd a] @ b @ tl a, ms_min_gallop)
                else if min_gallop \<le> acount + 1
                then lo_gallop lt (out @ [hd a]) (tl a) b (min_gallop + 1) ms_min_gallop
                else lo_seq lt (out @ [hd a]) (tl a) b (acount + 1) 0 min_gallop ms_min_gallop)))"
| "lo_gallop lt out a b min_gallop ms_min_gallop =
     (if a = [] \<or> b = [] then Inr (out @ a @ b, ms_min_gallop)
      else
        (case gallop_right lt (hd b) a 0 of
           Inl e \<Rightarrow> Inl e
         | Inr k \<Rightarrow>
             if k \<noteq> 0 \<and> length (drop k a) = 1
             then Inr (out @ take k a @ b @ drop k a, min_gallop - (if 1 < min_gallop then 1 else 0))
             else if k \<noteq> 0 \<and> drop k a = []
             then Inr (out @ take k a @ b, min_gallop - (if 1 < min_gallop then 1 else 0))
             else if tl b = []
             then Inr (out @ take k a @ [hd b] @ drop k a,
                       min_gallop - (if 1 < min_gallop then 1 else 0))
             else
               (case gallop_left lt (hd (drop k a)) (tl b) 0 of
                  Inl e \<Rightarrow> Inl e
                | Inr k' \<Rightarrow>
                    if k' \<noteq> 0 \<and> drop k' (tl b) = []
                    then Inr (out @ take k a @ [hd b] @ tl b @ drop k a,
                              min_gallop - (if 1 < min_gallop then 1 else 0))
                    else if length (tl (drop k a)) = 1
                    then Inr (out @ take k a @ [hd b] @ take k' (tl b) @ [hd (drop k a)]
                                @ drop k' (tl b) @ tl (drop k a),
                              min_gallop - (if 1 < min_gallop then 1 else 0))
                    else if MIN_GALLOP \<le> k \<or> MIN_GALLOP \<le> k'
                    then lo_gallop lt
                           (out @ take k a @ [hd b] @ take k' (tl b) @ [hd (drop k a)])
                           (tl (drop k a)) (drop k' (tl b))
                           (min_gallop - (if 1 < min_gallop then 1 else 0))
                           (min_gallop - (if 1 < min_gallop then 1 else 0))
                    else lo_seq lt
                           (out @ take k a @ [hd b] @ take k' (tl b) @ [hd (drop k a)])
                           (tl (drop k a)) (drop k' (tl b)) 0 0
                           (min_gallop - (if 1 < min_gallop then 1 else 0) + 1)
                           (min_gallop - (if 1 < min_gallop then 1 else 0) + 1))))"
  by pat_completeness auto
termination
  by (relation "measure (\<lambda>x. case x of
          Inl (lt, out, a, b, acount, bcount, min_gallop, ms_min_gallop) \<Rightarrow> length a + length b
        | Inr (lt, out, a, b, min_gallop, ms_min_gallop) \<Rightarrow> length a + length b)")
     (auto simp add: neq_Nil_conv)

declare lo_seq.simps [simp del] lo_gallop.simps [simp del]

definition merge_lo :: "'a less \<Rightarrow> 'a list \<Rightarrow> 'a list \<Rightarrow> nat \<Rightarrow> error + 'a list \<times> nat" where
  "merge_lo lt a b ms_min_gallop =
     (if tl b = [] then Inr (b @ a, ms_min_gallop)
      else if length a = 1 then Inr (b @ a, ms_min_gallop)
      else lo_seq lt [hd b] a (tl b) 0 0 ms_min_gallop ms_min_gallop)"

function hi_seq ::
    "'a less \<Rightarrow> 'a list \<Rightarrow> 'a list \<Rightarrow> 'a list \<Rightarrow> nat \<Rightarrow> nat \<Rightarrow> nat \<Rightarrow> nat \<Rightarrow> error + 'a list \<times> nat"
  and hi_gallop ::
    "'a less \<Rightarrow> 'a list \<Rightarrow> 'a list \<Rightarrow> 'a list \<Rightarrow> nat \<Rightarrow> nat \<Rightarrow> error + 'a list \<times> nat"
where
  "hi_seq lt out a b acount bcount min_gallop ms_min_gallop =
     (if a = [] \<or> b = [] then Inr (a @ b @ out, ms_min_gallop)
      else
        (case lt (last b) (last a) of
           Inl e \<Rightarrow> Inl e
         | Inr k \<Rightarrow>
             if k then
               (if butlast a = [] then Inr (b @ [last a] @ out, ms_min_gallop)
                else if min_gallop \<le> acount + 1
                then hi_gallop lt (last a # out) (butlast a) b (min_gallop + 1) ms_min_gallop
                else hi_seq lt (last a # out) (butlast a) b (acount + 1) 0 min_gallop ms_min_gallop)
             else
               (if length (butlast b) = 1 then Inr (butlast b @ a @ [last b] @ out, ms_min_gallop)
                else if min_gallop \<le> bcount + 1
                then hi_gallop lt (last b # out) a (butlast b) (min_gallop + 1) ms_min_gallop
                else hi_seq lt (last b # out) a (butlast b) 0 (bcount + 1) min_gallop ms_min_gallop)))"
| "hi_gallop lt out a b min_gallop ms_min_gallop =
     (if a = [] \<or> b = [] then Inr (a @ b @ out, ms_min_gallop)
      else
        (case gallop_right lt (last b) a (length a - 1) of
           Inl e \<Rightarrow> Inl e
         | Inr k \<Rightarrow>
             if k \<noteq> length a \<and> take k a = []
             then Inr (b @ a @ out, min_gallop - (if 1 < min_gallop then 1 else 0))
             else if length (butlast b) = 1
             then Inr (butlast b @ take k a @ [last b] @ drop k a @ out,
                       min_gallop - (if 1 < min_gallop then 1 else 0))
             else
               (case gallop_left lt (last (take k a)) (butlast b) (length (butlast b) - 1) of
                  Inl e \<Rightarrow> Inl e
                | Inr k' \<Rightarrow>
                    if k' \<noteq> length (butlast b) \<and> length (take k' (butlast b)) = 1
                    then Inr (take k' (butlast b) @ take k a @ drop k' (butlast b) @ [last b]
                                @ drop k a @ out,
                              min_gallop - (if 1 < min_gallop then 1 else 0))
                    else if k' \<noteq> length (butlast b) \<and> take k' (butlast b) = []
                    then Inr (take k a @ butlast b @ [last b] @ drop k a @ out,
                              min_gallop - (if 1 < min_gallop then 1 else 0))
                    else if butlast (take k a) = []
                    then Inr (take k' (butlast b) @ [last (take k a)] @ drop k' (butlast b)
                                @ [last b] @ drop k a @ out,
                              min_gallop - (if 1 < min_gallop then 1 else 0))
                    else if MIN_GALLOP \<le> length a - k \<or> MIN_GALLOP \<le> length (butlast b) - k'
                    then hi_gallop lt
                           (last (take k a) # drop k' (butlast b) @ [last b] @ drop k a @ out)
                           (butlast (take k a)) (take k' (butlast b))
                           (min_gallop - (if 1 < min_gallop then 1 else 0))
                           (min_gallop - (if 1 < min_gallop then 1 else 0))
                    else hi_seq lt
                           (last (take k a) # drop k' (butlast b) @ [last b] @ drop k a @ out)
                           (butlast (take k a)) (take k' (butlast b)) 0 0
                           (min_gallop - (if 1 < min_gallop then 1 else 0) + 1)
                           (min_gallop - (if 1 < min_gallop then 1 else 0) + 1))))"
  by pat_completeness auto
termination
  by (relation "measure (\<lambda>x. case x of
          Inl (lt, out, a, b, acount, bcount, min_gallop, ms_min_gallop) \<Rightarrow> length a + length b
        | Inr (lt, out, a, b, min_gallop, ms_min_gallop) \<Rightarrow> length a + length b)")
     (auto simp add: neq_Nil_conv)

declare hi_seq.simps [simp del] hi_gallop.simps [simp del]

definition merge_hi :: "'a less \<Rightarrow> 'a list \<Rightarrow> 'a list \<Rightarrow> nat \<Rightarrow> error + 'a list \<times> nat" where
  "merge_hi lt a b ms_min_gallop =
     (if butlast a = [] then Inr (b @ a, ms_min_gallop)
      else if length b = 1 then Inr (b @ a, ms_min_gallop)
      else hi_seq lt [last a] (butlast a) b 0 0 ms_min_gallop ms_min_gallop)"

text \<open>\<open>merge_at\<close>: the items of \<open>a\<close> that are already in place before \<open>b\<close> and the items of
  \<open>b\<close> already in place after \<open>a\<close> are left out of the merge.\<close>

definition merge_runs :: "'a less \<Rightarrow> 'a list \<Rightarrow> 'a list \<Rightarrow> nat \<Rightarrow> error + 'a list \<times> nat" where
  "merge_runs lt a b ms_min_gallop =
     (case gallop_right lt (hd b) a 0 of
        Inl e \<Rightarrow> Inl e
      | Inr k \<Rightarrow>
          if drop k a = [] then Inr (a @ b, ms_min_gallop)
          else
            (case gallop_left lt (last a) b (length b - 1) of
               Inl e \<Rightarrow> Inl e
             | Inr nb \<Rightarrow>
                 if nb = 0 then Inr (a @ b, ms_min_gallop)
                 else
                   (case (if length (drop k a) \<le> nb
                          then merge_lo lt (drop k a) (take nb b) ms_min_gallop
                          else merge_hi lt (drop k a) (take nb b) ms_min_gallop) of
                      Inl e \<Rightarrow> Inl e
                    | Inr (merged, ms_min_gallop') \<Rightarrow>
                        Inr (take k a @ merged @ drop nb b, ms_min_gallop'))))"

text \<open>\<open>powerloop\<close>: the power of the boundary between the run of \<open>n1\<close> items at \<open>s1\<close> and
  the next one of \<open>n2\<close> items, in a list of \<open>n\<close> items.\<close>

function power_loop :: "nat \<Rightarrow> nat \<Rightarrow> nat \<Rightarrow> nat \<Rightarrow> nat" where
  "power_loop a b n result =
     (if \<not> (a < b \<and> a < 2 * n) then result
      else if n \<le> a then power_loop (2 * (a - n)) (2 * (b - n)) n (result + 1)
      else if n \<le> b then result + 1
      else power_loop (2 * a) (2 * b) n (result + 1))"
  by pat_completeness auto
termination
  by (relation "measures [\<lambda>(a, b, n, result). 2 * n - min (b - a) (2 * n), \<lambda>(a, b, n, result). a]")
     (auto simp add: min_def)

declare power_loop.simps [simp del]

definition powerloop :: "nat \<Rightarrow> nat \<Rightarrow> nat \<Rightarrow> nat \<Rightarrow> nat" where
  "powerloop s1 n1 n2 n = power_loop (2 * s1 + n1) (2 * s1 + n1 + n1 + n2) n 0"

text \<open>The stack of pending runs, the last found first: each with its start, its items and
  its power. \<open>found_new_run\<close> merges the runs on the stack whose power is above that of
  the new boundary; \<open>merge_force_collapse\<close> merges what is left at the end.\<close>

type_synonym 'a pending = "(nat \<times> 'a list \<times> nat) list"

fun collapse :: "'a less \<Rightarrow> nat \<Rightarrow> 'a pending \<Rightarrow> nat \<Rightarrow> error + 'a pending \<times> nat" where
  "collapse lt new_power ((s2, r2, p2) # (s1, r1, p1) # pending) ms_min_gallop =
     (if new_power < p1 then
        (case merge_runs lt r1 r2 ms_min_gallop of
           Inl e \<Rightarrow> Inl e
         | Inr (merged, ms_min_gallop') \<Rightarrow>
             collapse lt new_power ((s1, merged, p1) # pending) ms_min_gallop')
      else Inr ((s2, r2, new_power) # (s1, r1, p1) # pending, ms_min_gallop))"
| "collapse lt new_power [(s, r, p)] ms_min_gallop = Inr ([(s, r, new_power)], ms_min_gallop)"
| "collapse lt new_power [] ms_min_gallop = Inr ([], ms_min_gallop)"

definition found_new_run ::
  "'a less \<Rightarrow> 'a pending \<Rightarrow> nat \<Rightarrow> nat \<Rightarrow> nat \<Rightarrow> error + 'a pending \<times> nat" where
  "found_new_run lt pending n2 listlen ms_min_gallop =
     (case pending of
        [] \<Rightarrow> Inr ([], ms_min_gallop)
      | (s1, r1, p1) # below \<Rightarrow>
          collapse lt (powerloop s1 (length r1) n2 listlen) pending ms_min_gallop)"

fun merge_force_collapse :: "'a less \<Rightarrow> 'a pending \<Rightarrow> nat \<Rightarrow> error + 'a pending \<times> nat" where
  "merge_force_collapse lt ((s2, r2, p2) # (s1, r1, p1) # (s0, r0, p0) # pending) ms_min_gallop =
     (if length r0 < length r2 then
        (case merge_runs lt r0 r1 ms_min_gallop of
           Inl e \<Rightarrow> Inl e
         | Inr (merged, ms_min_gallop') \<Rightarrow>
             merge_force_collapse lt ((s2, r2, p2) # (s0, merged, p0) # pending) ms_min_gallop')
      else
        (case merge_runs lt r1 r2 ms_min_gallop of
           Inl e \<Rightarrow> Inl e
         | Inr (merged, ms_min_gallop') \<Rightarrow>
             merge_force_collapse lt ((s1, merged, p1) # (s0, r0, p0) # pending) ms_min_gallop'))"
| "merge_force_collapse lt [(s2, r2, p2), (s1, r1, p1)] ms_min_gallop =
     (case merge_runs lt r1 r2 ms_min_gallop of
        Inl e \<Rightarrow> Inl e
      | Inr (merged, ms_min_gallop') \<Rightarrow> Inr ([(s1, merged, p1)], ms_min_gallop'))"
| "merge_force_collapse lt pending ms_min_gallop = Inr (pending, ms_min_gallop)"

text \<open>The main loop of \<open>list_sort_impl\<close>, on the part of the list not yet cut into runs.\<close>

function runs_loop ::
  "'a less \<Rightarrow> 'a list \<Rightarrow> nat \<Rightarrow> nat \<Rightarrow> nat \<Rightarrow> 'a pending \<Rightarrow> nat \<Rightarrow> error + 'a pending \<times> nat" where
  "runs_loop lt rest start listlen minrun pending ms_min_gallop =
     (if rest = [] then Inr (pending, ms_min_gallop)
      else
        (case count_run lt rest of
           Inl e \<Rightarrow> Inl e
         | Inr (n, descending) \<Rightarrow>
             (case (if n < minrun
                    then (case binarysort lt
                                 (if descending then rev (take n rest) else take n rest)
                                 (take (min minrun (length rest) - n) (drop n rest)) of
                            Inl e \<Rightarrow> Inl e
                          | Inr run \<Rightarrow> Inr (run, min minrun (length rest)))
                    else Inr (if descending then rev (take n rest) else take n rest, n)) of
                Inl e \<Rightarrow> Inl e
              | Inr (run, n') \<Rightarrow>
                  if n' = 0 then Inr (pending, ms_min_gallop)
                  else
                    (case found_new_run lt pending n' listlen ms_min_gallop of
                       Inl e \<Rightarrow> Inl e
                     | Inr (pending', ms_min_gallop') \<Rightarrow>
                         runs_loop lt (drop n' rest) (start + n') listlen minrun
                           ((start, run, 0) # pending') ms_min_gallop'))))"
  by pat_completeness auto
termination
  by (relation "measure (\<lambda>(lt, rest, start, listlen, minrun, pending, ms_min_gallop). length rest)")
     auto

declare runs_loop.simps [simp del]

definition timsort :: "'a less \<Rightarrow> 'a list \<Rightarrow> error + 'a list" where
  "timsort lt xs =
     (if length xs < 2 then Inr xs
      else
        (case runs_loop lt xs 0 (length xs) (merge_compute_minrun (length xs) 0) [] MIN_GALLOP of
           Inl e \<Rightarrow> Inl e
         | Inr (pending, ms_min_gallop) \<Rightarrow>
             (case merge_force_collapse lt pending ms_min_gallop of
                Inl e \<Rightarrow> Inl e
              | Inr (pending', ms_min_gallop') \<Rightarrow> Inr (concat (rev (map (fst \<circ> snd) pending'))))))"

text \<open>
  \<open>list_sort_impl\<close> without and with \<open>reverse=True\<close>: the list is reversed, sorted and
  reversed again. Where \<open><\<close> ranks the items, every pair compared with the answer the
  ranks give, the result is what the library documents: the items in ascending order,
  those of one rank in the order they had. \<open>rank\<close> counts the items below an item.
\<close>

definition rank :: "'a less \<Rightarrow> 'a list \<Rightarrow> 'a \<Rightarrow> nat" where
  "rank lt xs a = length (filter (\<lambda>b. lt b a = Inr True) xs)"

definition consistent :: "'a less \<Rightarrow> 'a list \<Rightarrow> bool" where
  "consistent lt xs \<longleftrightarrow>
     (\<forall>a\<in>set xs. \<forall>b\<in>set xs. lt a b = Inr (rank lt xs a < rank lt xs b))"

definition list_sort :: "'a less \<Rightarrow> bool \<Rightarrow> 'a list \<Rightarrow> error + 'a list" where
  "list_sort lt reverse xs =
     (if consistent lt xs
      then Inr (if reverse then rev (sort_key (rank lt xs) (rev xs)) else sort_key (rank lt xs) xs)
      else
        (case timsort lt (if reverse then rev xs else xs) of
           Inl e \<Rightarrow> Inl e
         | Inr ys \<Rightarrow> Inr (if reverse then rev ys else ys)))"

section \<open>Requests and their validation\<close>

text \<open>The request models, as the handlers receive them: parsed, with the default limit
  of 10 filled in where the body gave none.\<close>

record SearchRequest =
  query :: string
  limit :: int

record IngredientSearchRequest =
  ingredients :: string
  limit :: int

record CuisineSearchRequest =
  cuisine :: string
  limit :: int

record DishSearchRequest =
  dish :: string
  limit :: int

text \<open>The declared field constraints: \<open>min_length=1, max_length=n\<close> and \<open>ge=1, le=50\<close>.\<close>

definition valid_text :: "nat \<Rightarrow> string \<Rightarrow> bool" where
  "valid_text max_length s \<longleftrightarrow> 1 \<le> length s \<and> length s \<le> max_length"

definition valid_limit :: "int \<Rightarrow> bool" where
  "valid_limit l \<longleftrightarrow> 1 \<le> l \<and> l \<le> 50"

section \<open>The cached handlers\<close>

definition annotate :: "json \<Rightarrow> bool \<Rightarrow> int \<Rightarrow> error + json" where
  "annotate result cached ms =
     (case setitem result ''cached'' (JBool cached) of
        Inl e \<Rightarrow> Inl e
      | Inr result' \<Rightarrow> setitem result' ''response_time_ms'' (JInt ms))"

text \<open>
  The six cached handlers have one body, here written once: the cache name and the
  request dictionary give the key, the path and the upstream payload give the request
  sent on a miss. \<open>ms\<close> is the elapsed time the handler reads from the clock when it
  annotates the payload it returns. A handler's result is the dictionary it returns or
  the exception it raises; the framework's serialisation of a returned dictionary through
  the declared \<open>response_model\<close> comes after it.
\<close>

definition fetch_and_store ::
  "world \<Rightarrow> int \<Rightarrow> string \<Rightarrow> string \<Rightarrow> pydict \<Rightarrow> (error + json) \<times> world" where
  "fetch_and_store w ms cache_key path laravel_data =
     (case proxy_laravel_request w path laravel_data of
        (Inl e, w') \<Rightarrow> (Inl e, w')
      | (Inr result, w') \<Rightarrow>
          (case annotate result False ms of
             Inl e \<Rightarrow> (Inl e, w')
           | Inr result' \<Rightarrow> (Inr result', set_cached_result w' cache_key result')))"

definition cached_handler ::
  "(real \<Rightarrow> string) \<Rightarrow> world \<Rightarrow> int \<Rightarrow> string \<Rightarrow> pydict \<Rightarrow> string \<Rightarrow> pydict
     \<Rightarrow> (error + json) \<times> world" where
  "cached_handler float_repr w ms name request_dict path laravel_data =
     (let cache_key = generate_cache_key float_repr name request_dict in
      case get_cached_result w cache_key of
        (Some cached_result, w') \<Rightarrow>
          if truthy cached_result then (annotate cached_result True ms, w')
          else fetch_and_store w' ms cache_key path laravel_data
      | (None, w') \<Rightarrow> fetch_and_store w' ms cache_key path laravel_data)"

definition search_by_ingredients ::
  "(real \<Rightarrow> string) \<Rightarrow> world \<Rightarrow> int \<Rightarrow> IngredientSearchRequest \<Rightarrow> (error + json) \<times> world" where
  "search_by_ingredients float_repr w ms request =
     cached_handler float_repr w ms ''ingredients''
       [(''ingredients'', JStr (ingredients request)),
        (''limit'', JInt (IngredientSearchRequest.limit request))]
       ''/search/ingredients''
       [(''ingredients'', JStr (ingredients request)),
        (''limit'', JInt (IngredientSearchRequest.limit request))]"

definition search_by_cuisine ::
  "(real \<Rightarrow> string) \<Rightarrow> world \<Rightarrow> int \<Rightarrow> CuisineSearchRequest \<Rightarrow> (error + json) \<times> world" where
  "search_by_cuisine float_repr w ms request =
     cached_handler float_repr w ms ''cuisine''
       [(''cuisine'', JStr (cuisine request)),
        (''limit'', JInt (CuisineSearchRequest.limit request))]
       ''/search/cuisine''
       [(''cuisine'', JStr (cuisine request)),
        (''limit'', JInt (CuisineSearchRequest.limit request))]"

definition search_by_dish ::
  "(real \<Rightarrow> string) \<Rightarrow> world \<Rightarrow> int \<Rightarrow> DishSearchRequest \<Rightarrow> (error + json) \<times> world" where
  "search_by_dish float_repr w ms request =
     cached_handler float_repr w ms ''dish''
       [(''dish'', JStr (dish request)), (''limit'', JInt (DishSearchRequest.limit request))]
       ''/search/dish''
       [(''dish'', JStr (dish request)), (''limit'', JInt (DishSearchRequest.limit request))]"

definition general_search ::
  "(real \<Rightarrow> string) \<Rightarrow> world \<Rightarrow> int \<Rightarrow> SearchRequest \<Rightarrow> (error + json) \<times> world" where
  "general_search float_repr w ms request =
     cached_handler float_repr w ms ''general''
       [(''query'', JStr (query request)), (''limit'', JInt (SearchRequest.limit request))]
       ''/search/general''
       [(''q'', JStr (query request)), (''limit'', JInt (SearchRequest.limit request))]"

definition hybrid_search ::
  "(real \<Rightarrow> string) \<Rightarrow> world \<Rightarrow> int \<Rightarrow> SearchRequest \<Rightarrow> (error + json) \<times> world" where
  "hybrid_search float_repr w ms request =
     cached_handler float_repr w ms ''hybrid''
       [(''query'', JStr (query request)), (''limit'', JInt (SearchRequest.limit request))]
       ''/search/hybrid''
       [(''q'', JStr (query request)), (''limit'', JInt (SearchRequest.limit request))]"

definition find_similar_recipes ::
  "(real \<Rightarrow> string) \<Rightarrow> world \<Rightarrow> int \<Rightarrow> int \<Rightarrow> int \<Rightarrow> (error + json) \<times> world" where
  "find_similar_recipes float_repr w ms recipe_id limit_param =
     cached_handler float_repr w ms ''similar''
       [(''recipe_id'', JInt recipe_id), (''limit'', JInt limit_param)]
       (''/search/similar/'' @ str_int recipe_id)
       [(''limit'', JInt limit_param)]"

section \<open>Enhanced search\<close>

text \<open>
  \<open>asyncio.gather(*tasks, return_exceptions=True)\<close>: every task runs to its end and its
  outcome, a payload or the exception it raised, is kept at the task's position. The
  upstream answers by path and body, so the interleaving of the three calls does not show
  in their outcomes; the log keeps them in task order.
\<close>

fun gather :: "world \<Rightarrow> (string \<times> pydict) list \<Rightarrow> (error + json) list \<times> world" where
  "gather w [] = ([], w)"
| "gather w ((endpoint, data) # tasks) =
     (case proxy_laravel_request w endpoint data of
        (r, w') \<Rightarrow> (case gather w' tasks of (rs, w'') \<Rightarrow> (r # rs, w'')))"

definition tasks :: "SearchRequest \<Rightarrow> (string \<times> pydict) list" where
  "tasks request =
     [(''/search/general'',
         [(''q'', JStr (query request)), (''limit'', JInt (SearchRequest.limit request div 2))]),
      (''/search/ingredients'',
         [(''ingredients'', JStr (query request)),
          (''limit'', JInt (SearchRequest.limit request div 2))]),
      (''/search/dish'',
         [(''dish'', JStr (query request)), (''limit'', JInt (SearchRequest.limit request div 2))])]"

text \<open>\<open>result["results"]\<close> where \<open>isinstance(result, dict) and "results" in result\<close>.\<close>

fun results_field :: "error + json \<Rightarrow> json option" where
  "results_field (Inr (JObj d)) = map_of d ''results''"
| "results_field _ = None"

text \<open>The loop over the gathered outcomes: the pool and the count of successes.\<close>

fun combine :: "json list \<Rightarrow> int \<Rightarrow> (error + json) list \<Rightarrow> error + json list \<times> int" where
  "combine combined_results successful_searches [] =
     Inr (combined_results, successful_searches)"
| "combine combined_results successful_searches (result # results) =
     (case results_field result of
        Some v \<Rightarrow>
          (case iter v of
             Inl e \<Rightarrow> Inl e
           | Inr items \<Rightarrow> combine (combined_results @ items) (successful_searches + 1) results)
      | None \<Rightarrow> combine combined_results successful_searches results)"

text \<open>The loop that removes duplicates, with its set of seen identifiers.\<close>

fun unique_loop :: "hkey set \<Rightarrow> json list \<Rightarrow> json list \<Rightarrow> error + json list" where
  "unique_loop seen_ids unique_results [] = Inr unique_results"
| "unique_loop seen_ids unique_results (recipe # rest) =
     (case getitem recipe ''recipe_id'' of
        Inl e \<Rightarrow> Inl e
      | Inr recipe_id \<Rightarrow>
          (case hash_key recipe_id of
             Inl e \<Rightarrow> Inl e
           | Inr h \<Rightarrow>
               if h \<notin> seen_ids
               then unique_loop (insert h seen_ids) (unique_results @ [recipe]) rest
               else unique_loop seen_ids unique_results rest))"

text \<open>
  \<open>unique_results.sort(key=lambda x: x["similarity_score"], reverse=True)\<close>. The keys are
  computed first, one per item in list order; the items then move with their keys, which
  alone are compared.
\<close>

fun score_keys :: "json list \<Rightarrow> error + json list" where
  "score_keys [] = Inr []"
| "score_keys (x # xs) =
     (case getitem x ''similarity_score'' of
        Inl e \<Rightarrow> Inl e
      | Inr k \<Rightarrow> (case score_keys xs of Inl e \<Rightarrow> Inl e | Inr ks \<Rightarrow> Inr (k # ks)))"

definition sort_by_score :: "json list \<Rightarrow> error + json list" where
  "sort_by_score xs =
     (case score_keys xs of
        Inl e \<Rightarrow> Inl e
      | Inr ks \<Rightarrow>
          (case list_sort (\<lambda>p q. py_lt (fst p) (fst q)) True (zip ks xs) of
             Inl e \<Rightarrow> Inl e
           | Inr ps \<Rightarrow> Inr (map snd ps)))"

text \<open>The body of the \<open>try\<close> block after the gather, up to the returned dictionary.\<close>

definition merge_results ::
  "SearchRequest \<Rightarrow> int \<Rightarrow> nat \<Rightarrow> (error + json) list \<Rightarrow> error + json" where
  "merge_results request ms n_tasks results =
     (case combine [] 0 results of
        Inl e \<Rightarrow> Inl e
      | Inr (combined_results, successful_searches) \<Rightarrow>
          (case unique_loop {} [] combined_results of
             Inl e \<Rightarrow> Inl e
           | Inr unique_results \<Rightarrow>
               (case sort_by_score unique_results of
                  Inl e \<Rightarrow> Inl e
                | Inr sorted_results \<Rightarrow>
                    (let final_results = slice_to sorted_results (SearchRequest.limit request)
                     in Inr (JObj
                          [(''query'', JStr (query request)),
                           (''search_type'', JStr ''enhanced_parallel''),
                           (''results'', JArr final_results),
                           (''count'', JInt (int (length final_results))),
                           (''successful_searches'', JInt successful_searches),
                           (''total_searches'', JInt (int n_tasks)),
                           (''cached'', JBool False),
                           (''response_time_ms'', JInt ms)])))))"

definition enhanced_search :: "world \<Rightarrow> int \<Rightarrow> SearchRequest \<Rightarrow> (error + json) \<times> world" where
  "enhanced_search w ms request =
     (case gather w (tasks request) of
        (results, w') \<Rightarrow>
          (case merge_results request ms (length (tasks request)) results of
             Inl e \<Rightarrow> (Inl (HTTPException 500 ''Enhanced search failed''), w')
           | Inr response \<Rightarrow> (Inr response, w')))"

section \<open>The endpoints\<close>

text \<open>
  A request reaches its handler only when its body or parameters pass the declared
  constraints; otherwise the framework answers with the validation error and the handler
  does not run. \<open>find_similar_recipes\<close> declares \<open>recipe_id: int\<close> and
  \<open>limit: int = 5\<close>, with no constraint.
\<close>

definition post_search_ingredients ::
  "(real \<Rightarrow> string) \<Rightarrow> world \<Rightarrow> int \<Rightarrow> IngredientSearchRequest \<Rightarrow> (error + json) \<times> world" where
  "post_search_ingredients float_repr w ms request =
     (if valid_text 500 (ingredients request) \<and> valid_limit (IngredientSearchRequest.limit request)
      then search_by_ingredients float_repr w ms request
      else (Inl RequestValidationError, w))"

definition post_search_cuisine ::
  "(real \<Rightarrow> string) \<Rightarrow> world \<Rightarrow> int \<Rightarrow> CuisineSearchRequest \<Rightarrow> (error + json) \<times> world" where
  "post_search_cuisine float_repr w ms request =
     (if valid_text 200 (cuisine request) \<and> valid_limit (CuisineSearchRequest.limit request)
      then search_by_cuisine float_repr w ms request
      else (Inl RequestValidationError, w))"

definition post_search_dish ::
  "(real \<Rightarrow> string) \<Rightarrow> world \<Rightarrow> int \<Rightarrow> DishSearchRequest \<Rightarrow> (error + json) \<times> world" where
  "post_search_dish float_repr w ms request =
     (if valid_text 200 (dish request) \<and> valid_limit (DishSearchRequest.limit request)
      then search_by_dish float_repr w ms request
      else (Inl RequestValidationError, w))"

definition post_search_general ::
  "(real \<Rightarrow> string) \<Rightarrow> world \<Rightarrow> int \<Rightarrow> SearchRequest \<Rightarrow> (error + json) \<times> world" where
  "post_search_general float_repr w ms request =
     (if valid_text 500 (query request) \<and> valid_limit (SearchRequest.limit request)
      then general_search float_repr w ms request
      else (Inl RequestValidationError, w))"

definition post_search_hybrid ::
  "(real \<Rightarrow> string) \<Rightarrow> world \<Rightarrow> int \<Rightarrow> SearchRequest \<Rightarrow> (error + json) \<times> world" where
  "post_search_hybrid float_repr w ms request =
     (if valid_text 500 (query request) \<and> valid_limit (SearchRequest.limit request)
      then hybrid_search float_repr w ms request
      else (Inl RequestValidationError, w))"

definition post_search_enhanced ::
  "world \<Rightarrow> int \<Rightarrow> SearchRequest \<Rightarrow> (error + json) \<times> world" where
  "post_search_enhanced w ms request =
     (if valid_text 500 (query request) \<and> valid_limit (SearchRequest.limit request)
      then enhanced_search w ms request
      else (Inl RequestValidationError, w))"

definition post_search_similar ::
  "(real \<Rightarrow> string) \<Rightarrow> world \<Rightarrow> int \<Rightarrow> int \<Rightarrow> int option \<Rightarrow> (error + json) \<times> world" where
  "post_search_similar float_repr w ms recipe_id limit_param =
     find_similar_recipes float_repr w ms recipe_id
       (case limit_param of None \<Rightarrow> 5 | Some l \<Rightarrow> l)"

section \<open>Notions used to state the properties\<close>

text \<open>The six cached handlers as one family, with the key and the upstream request of each.\<close>

datatype cached_call =
    Ingredients IngredientSearchRequest
  | Cuisine CuisineSearchRequest
  | Dish DishSearchRequest
  | General SearchRequest
  | Hybrid SearchRequest
  | Similar int int

fun run_cached ::
  "(real \<Rightarrow> string) \<Rightarrow> world \<Rightarrow> int \<Rightarrow> cached_call \<Rightarrow> (error + json) \<times> world" where
  "run_cached float_repr w ms (Ingredients request) = search_by_ingredients float_repr w ms request"
| "run_cached float_repr w ms (Cuisine request) = search_by_cuisine float_repr w ms request"
| "run_cached float_repr w ms (Dish request) = search_by_dish float_repr w ms request"
| "run_cached float_repr w ms (General request) = general_search float_repr w ms request"
| "run_cached float_repr w ms (Hybrid request) = hybrid_search float_repr w ms request"
| "run_cached float_repr w ms (Similar recipe_id limit_param) =
     find_similar_recipes float_repr w ms recipe_id limit_param"

fun cache_key_of :: "(real \<Rightarrow> string) \<Rightarrow> cached_call \<Rightarrow> string" where
  "cache_key_of float_repr (Ingredients request) =
     generate_cache_key float_repr ''ingredients''
       [(''ingredients'', JStr (ingredients request)),
        (''limit'', JInt (IngredientSearchRequest.limit request))]"
| "cache_key_of float_repr (Cuisine request) =
     generate_cache_key float_repr ''cuisine''
       [(''cuisine'', JStr (cuisine request)),
        (''limit'', JInt (CuisineSearchRequest.limit request))]"
| "cache_key_of float_repr (Dish request) =
     generate_cache_key float_repr ''dish''
       [(''dish'', JStr (dish request)), (''limit'', JInt (DishSearchRequest.limit request))]"
| "cache_key_of float_repr (General request) =
     generate_cache_key float_repr ''general''
       [(''query'', JStr (query request)), (''limit'', JInt (SearchRequest.limit request))]"
| "cache_key_of float_repr (Hybrid request) =
     generate_cache_key float_repr ''hybrid''
       [(''query'', JStr (query request)), (''limit'', JInt (SearchRequest.limit request))]"
| "cache_key_of float_repr (Similar recipe_id limit_param) =
     generate_cache_key float_repr ''similar''
       [(''recipe_id'', JInt recipe_id), (''limit'', JInt limit_param)]"

fun upstream_path :: "cached_call \<Rightarrow> string" where
  "upstream_path (Ingredients request) = ''/search/ingredients''"
| "upstream_path (Cuisine request) = ''/search/cuisine''"
| "upstream_path (Dish request) = ''/search/dish''"
| "upstream_path (General request) = ''/search/general''"
| "upstream_path (Hybrid request) = ''/search/hybrid''"
| "upstream_path (Similar recipe_id limit_param) = ''/search/similar/'' @ str_int recipe_id"

fun upstream_data :: "cached_call \<Rightarrow> pydict" where
  "upstream_data (Ingredients request) =
     [(''ingredients'', JStr (ingredients request)),
      (''limit'', JInt (IngredientSearchRequest.limit request))]"
| "upstream_data (Cuisine request) =
     [(''cuisine'', JStr (cuisine request)), (''limit'', JInt (CuisineSearchRequest.limit request))]"
| "upstream_data (Dish request) =
     [(''dish'', JStr (dish request)), (''limit'', JInt (DishSearchRequest.limit request))]"
| "upstream_data (General request) =
     [(''q'', JStr (query request)), (''limit'', JInt (SearchRequest.limit request))]"
| "upstream_data (Hybrid request) =
     [(''q'', JStr (query request)), (''limit'', JInt (SearchRequest.limit request))]"
| "upstream_data (Similar recipe_id limit_param) = [(''limit'', JInt limit_param)]"

definition is_setex :: "io_event \<Rightarrow> bool" where
  "is_setex ev = (case ev of RedisSetex key ttl v \<Rightarrow> True | _ \<Rightarrow> False)"

text \<open>The outcome of one sub-search of the enhanced search.\<close>

definition sub_search :: "world \<Rightarrow> string \<times> pydict \<Rightarrow> error + json" where
  "sub_search w task = fst (proxy_laravel_request w (fst task) (snd task))"

text \<open>What an outcome adds to the pool: the items of its \<open>results\<close>, nothing when it
  is a failure.\<close>

definition pool_items :: "error + json \<Rightarrow> json list" where
  "pool_items outcome =
     (case results_field outcome of
        None \<Rightarrow> []
      | Some v \<Rightarrow> (case iter v of Inl e \<Rightarrow> [] | Inr items \<Rightarrow> items))"

text \<open>The identity under which the set of seen identifiers holds a recipe.\<close>

definition recipe_key :: "json \<Rightarrow> error + hkey" where
  "recipe_key recipe =
     (case getitem recipe ''recipe_id'' of Inl e \<Rightarrow> Inl e | Inr recipe_id \<Rightarrow> hash_key recipe_id)"

text \<open>Deduplication as the specification words it: of the entries with one identifier
  the first stays, every later one is discarded.\<close>

primrec keep_first :: "('a \<Rightarrow> 'k) \<Rightarrow> 'a list \<Rightarrow> 'a list" where
  "keep_first key [] = []"
| "keep_first key (x # xs) = x # filter (\<lambda>y. key y \<noteq> key x) (keep_first key xs)"

text \<open>\<open>xs[:k]\<close> for a \<open>k\<close> that is not negative keeps the first \<open>k\<close> items; for a negative
  \<open>k\<close> it drops the last \<open>-k\<close>.\<close>

definition truncated :: "int \<Rightarrow> 'a list \<Rightarrow> 'a list" where
  "truncated k xs = (if 0 \<le> k then take (nat k) xs else rev (drop (nat (- k)) (rev xs)))"

text \<open>The similarity score of an entry, and whether \<open><\<close> puts the score of one entry
  below that of another.\<close>

definition score :: "json \<Rightarrow> error + json" where
  "score recipe = getitem recipe ''similarity_score''"

definition score_lt :: "json \<Rightarrow> json \<Rightarrow> error + bool" where
  "score_lt x y =
     (case score x of
        Inl e \<Rightarrow> Inl e
      | Inr a \<Rightarrow> (case score y of Inl e \<Rightarrow> Inl e | Inr b \<Rightarrow> py_lt a b))"

text \<open>Scores are in non-increasing order when no entry has a score below that of a
  later entry; two entries tie when neither score is below the other.\<close>

definition non_increasing :: "json list \<Rightarrow> bool" where
  "non_increasing xs = sorted_wrt (\<lambda>x y. score_lt x y = Inr False) xs"

definition tie :: "json \<Rightarrow> json \<Rightarrow> bool" where
  "tie x y \<longleftrightarrow> score_lt x y = Inr False \<and> score_lt y x = Inr False"

text \<open>An entry as the \<open>RecipeResult\<close> model has it: a dictionary with a \<open>recipe_id\<close> that
  can be hashed and a \<open>similarity_score\<close> that is a finite number.\<close>

definition well_formed_recipe :: "json \<Rightarrow> bool" where
  "well_formed_recipe recipe =
     (case recipe_key recipe of
        Inl e \<Rightarrow> False
      | Inr h \<Rightarrow>
          (case score recipe of
             Inl e \<Rightarrow> False
           | Inr k \<Rightarrow> (case as_number k of Some (Finite r) \<Rightarrow> True | _ \<Rightarrow> False)))"

text \<open>The finite score of such an entry.\<close>

definition score_value :: "json \<Rightarrow> real" where
  "score_value recipe =
     (case score recipe of
        Inr k \<Rightarrow> (case as_number k of Some (Finite r) \<Rightarrow> r | _ \<Rightarrow> 0)
      | Inl e \<Rightarrow> 0)"



definition failed :: "error + json \<Rightarrow> bool" where
  "failed outcome \<longleftrightarrow> results_field outcome = None"

text \<open>The items held by the runs on the stack of the sort.\<close>

definition runs_mset :: "'a pending \<Rightarrow> 'a multiset" where
  "runs_mset pending = mset (concat (map (fst \<circ> snd) pending))"

text \<open>A lookup is a hit when it returns a payload that is true as a condition.\<close>

definition cache_hit :: "(real \<Rightarrow> string) \<Rightarrow> world \<Rightarrow> cached_call \<Rightarrow> bool" where
  "cache_hit float_repr w call =
     (case fst (get_cached_result w (cache_key_of float_repr call)) of
        None \<Rightarrow> False
      | Some cached_result \<Rightarrow> truthy cached_result)"

text \<open>The typed failure of an upstream call that got no response or an error status.\<close>

fun upstream_failure :: "http_outcome \<Rightarrow> error option" where
  "upstream_failure RequestError = Some (HTTPException 500 ''Request failed'')"
| "upstream_failure (HTTPStatusError status_code) =
     Some (HTTPException status_code ''Laravel API error'')"
| "upstream_failure (Response body) = None"

section \<open>Example worlds\<close>

text \<open>An upstream that cannot be reached, with a working empty cache.\<close>

definition upstream_down :: world where
  "upstream_down =
     \<lparr>http_client = True, redis_client = True, redis_up = True, now = 0,
      redis_data = Map.empty, laravel = (\<lambda>path body. RequestError), io_log = []\<rparr>"

text \<open>An upstream that answers every request with status 503, with a working empty cache.\<close>

definition upstream_unavailable :: world where
  "upstream_unavailable =
     \<lparr>http_client = True, redis_client = True, redis_up = True, now = 0,
      redis_data = Map.empty, laravel = (\<lambda>path body. HTTPStatusError 503), io_log = []\<rparr>"

text \<open>An upstream payload with one recipe.\<close>

definition pasta_payload :: pydict where
  "pasta_payload =
     [(''results'',
        JArr [JObj [(''recipe_id'', JInt 52772), (''name'', JStr ''Teriyaki Chicken''),
                    (''similarity_score'', JFloat 0.5)]]),
      (''count'', JInt 1)]"

text \<open>A store that does not answer, behind a client that is set.\<close>

definition cache_down :: world where
  "cache_down =
     \<lparr>http_client = True, redis_client = True, redis_up = False, now = 0,
      redis_data = Map.empty, laravel = (\<lambda>path body. Response (Some (JObj pasta_payload))),
      io_log = []\<rparr>"

text \<open>A cache that holds the annotated payload of an earlier dish search, with an
  upstream that is down.\<close>

definition cache_warm :: world where
  "cache_warm =
     \<lparr>http_client = True, redis_client = True, redis_up = True, now = 10,
      redis_data =
        [cache_key_of (\<lambda>r. []) (Dish \<lparr>dish = ''teriyaki'', limit = 5\<rparr>) \<mapsto>
           (JObj (pasta_payload @ [(''cached'', JBool False), (''response_time_ms'', JInt 4)]),
            3600)],
      laravel = (\<lambda>path body. RequestError), io_log = []\<rparr>"

text \<open>A working upstream and a working empty cache.\<close>

definition fresh_world :: world where
  "fresh_world =
     \<lparr>http_client = True, redis_client = True, redis_up = True, now = 0,
      redis_data = Map.empty, laravel = (\<lambda>path body. Response (Some (JObj pasta_payload))),
      io_log = []\<rparr>"

text \<open>
  Three sub-searches of which one fails: the general search returns recipes 1 and 2, the
  ingredient search is answered with status 503, the dish search returns recipe 1 again,
  with another score, and recipe 3, whose score ties with the first recipe 1.
\<close>

definition recipe :: "int \<Rightarrow> real \<Rightarrow> json" where
  "recipe recipe_id similarity =
     JObj [(''recipe_id'', JInt recipe_id), (''similarity_score'', JFloat similarity)]"

definition two_of_three :: world where
  "two_of_three =
     \<lparr>http_client = True, redis_client = True, redis_up = True, now = 0,
      redis_data = Map.empty,
      laravel = (\<lambda>path body.
        if path = ''/search/general''
        then Response (Some (JObj [(''results'', JArr [recipe 1 0.5, recipe 2 0.9])]))
        else if path = ''/search/dish''
        then Response (Some (JObj [(''results'', JArr [recipe 1 0.99, recipe 3 0.5])]))
        else HTTPStatusError 503),
      io_log = []\<rparr>"

text \<open>
  An upstream whose general search returns three recipes, the second with the score
  \<open>NaN\<close>, and whose other searches are answered with status 503.
\<close>

definition nan_recipe :: "int \<Rightarrow> json" where
  "nan_recipe recipe_id = JObj [(''recipe_id'', JInt recipe_id), (''similarity_score'', JNaN)]"

definition nan_score :: world where
  "nan_score =
     \<lparr>http_client = True, redis_client = True, redis_up = True, now = 0,
      redis_data = Map.empty,
      laravel = (\<lambda>path body.
        if path = ''/search/general''
        then Response (Some (JObj [(''results'', JArr [recipe 1 0.5, nan_recipe 2, recipe 3 0.9])]))
        else HTTPStatusError 503),
      io_log = []\<rparr>"


section \<open>Properties of the cache key\<close>

text \<open>The digest agrees with the test suite of RFC 1321 on the empty message and on \<open>abc\<close>.\<close>

lemma md5_test_suite:
  "hexdigest (md5 (encode [])) = ''d41d8cd98f00b204e9800998ecf8427e''"
  "hexdigest (md5 (encode ''abc'')) = ''900150983cd24fb0d6963f7d28e17f72''"
  by code_simp+

lemma sort_key_fst_unique:
  assumes "distinct (map fst xs)" "distinct (map fst ys)" "set xs = set ys"
  shows "sort_key fst xs = sort_key fst ys"
proof -
  let ?xs = "sort_key fst xs" and ?ys = "sort_key fst ys"
  have sx: "sorted (map fst ?xs)" and sy: "sorted (map fst ?ys)" by simp_all
  have dx: "distinct (map fst ?xs)" using assms(1)
    by (metis distinct_map distinct_sort set_sort)
  have dy: "distinct (map fst ?ys)" using assms(2)
    by (metis distinct_map distinct_sort set_sort)
  have "set (map fst ?xs) = set (map fst ?ys)" using assms(3) by simp
  then have keys: "map fst ?xs = map fst ?ys"
    using sx sy dx dy by (intro sorted_distinct_set_unique) auto
  have "inj_on fst (set ?xs \<union> set ?ys)"
    using assms by (simp add: distinct_map)
  with keys show ?thesis by (simp add: inj_on_map_eq_map)
qed

text \<open>
  C3. \<open>generate_cache_key\<close> is a function of the operation name and of the key/value
  pairs of the mapping: two dictionaries with the same items, inserted in any order, give
  the same key.
\<close>

theorem generate_cache_key_order_independent:
  assumes "distinct (map fst d1)" and "distinct (map fst d2)" and "set d1 = set d2"
  shows "generate_cache_key float_repr endpoint d1 = generate_cache_key float_repr endpoint d2"
proof -
  have "sort_key fst d1 = sort_key fst d2"
    using assms by (rule sort_key_fst_unique)
  then have "dumps_sorted float_repr (JObj d1) = dumps_sorted float_repr (JObj d2)" by simp
  then show ?thesis by (simp add: generate_cache_key_def cache_string_def)
qed

theorem generate_cache_key_order_independent_witness:
  "generate_cache_key (\<lambda>r. []) ''similar'' [(''recipe_id'', JInt 1), (''limit'', JInt 5)]
     = generate_cache_key (\<lambda>r. []) ''similar'' [(''limit'', JInt 5), (''recipe_id'', JInt 1)]"
  using generate_cache_key_order_independent
    [of "[(''recipe_id'', JInt 1), (''limit'', JInt 5)]"
        "[(''limit'', JInt 5), (''recipe_id'', JInt 1)]" "\<lambda>r. []" "''similar''"]
  by auto

lemma similar_key_int:
  "generate_cache_key float_repr ''similar'' [(''recipe_id'', JInt 1), (''limit'', JInt 5)]
     = ''a4fdfd9b24de92eb96c369128d001a7c''"
  by code_simp

lemma similar_key_str:
  "generate_cache_key float_repr ''similar'' [(''recipe_id'', JInt 1), (''limit'', JStr ''5'')]
     = ''9dacc0876767896114ce3bdc63adac73''"
  by code_simp

text \<open>
  C9. There are an operation name and two mappings that differ only in one value being
  the number \<open>5\<close> or the string \<open>"5"\<close> for which \<open>generate_cache_key\<close> gives different
  keys: the two forms are hashed as the distinct literals \<open>5\<close> and \<open>"5"\<close>.
\<close>

theorem generate_cache_key_number_vs_string:
  "generate_cache_key float_repr ''similar'' [(''recipe_id'', JInt 1), (''limit'', JInt 5)]
     \<noteq> generate_cache_key float_repr ''similar'' [(''recipe_id'', JInt 1), (''limit'', JStr ''5'')]"
  by (simp add: similar_key_int similar_key_str)

section \<open>Properties of the enhanced search: the gathered outcomes\<close>

lemma proxy_laravel_request_frame:
  "http_client (snd (proxy_laravel_request w endpoint data)) = http_client w"
  "laravel (snd (proxy_laravel_request w endpoint data)) = laravel w"
  "redis_client (snd (proxy_laravel_request w endpoint data)) = redis_client w"
  "redis_up (snd (proxy_laravel_request w endpoint data)) = redis_up w"
  "now (snd (proxy_laravel_request w endpoint data)) = now w"
  "redis_data (snd (proxy_laravel_request w endpoint data)) = redis_data w"
  by (simp_all add: proxy_laravel_request_def Let_def split: http_outcome.splits option.splits)

lemma sub_search_cong:
  "http_client w' = http_client w \<Longrightarrow> laravel w' = laravel w
     \<Longrightarrow> sub_search w' task = sub_search w task"
  by (simp add: sub_search_def proxy_laravel_request_def Let_def
           split: http_outcome.splits option.splits)

lemma gather_outcomes: "fst (gather w ts) = map (sub_search w) ts"
proof (induction ts arbitrary: w)
  case Nil
  show ?case by simp
next
  case (Cons t ts)
  obtain endpoint data where t: "t = (endpoint, data)" by (cases t)
  obtain r w1 where p: "proxy_laravel_request w endpoint data = (r, w1)"
    by (cases "proxy_laravel_request w endpoint data")
  have w1: "http_client w1 = http_client w" "laravel w1 = laravel w"
    using proxy_laravel_request_frame(1,2)[of w endpoint data] p by simp_all
  have "sub_search w1 task = sub_search w task" for task
    using w1 by (rule sub_search_cong)
  then have "map (sub_search w1) ts = map (sub_search w) ts" by simp
  moreover have "r = sub_search w t" using p t by (simp add: sub_search_def)
  ultimately show ?case using Cons.IH[of w1] p t
    by (simp add: split_beta)
qed

lemma combine_all_failed:
  "\<forall>r\<in>set results. failed r \<Longrightarrow> combine pool n results = Inr (pool, n)"
  by (induction results arbitrary: pool n) (simp_all add: failed_def)

lemma length_tasks: "length (tasks request) = 3"
  by (simp add: tasks_def)

lemma list_sort_Nil: "list_sort lt reverse [] = Inr []"
  by (simp add: list_sort_def consistent_def)

text \<open>
  C10. When all three sub-searches fail, the enhanced search does not raise: it returns
  a response with \<open>successful_searches = 0\<close>, \<open>total_searches = 3\<close>, an empty \<open>results\<close>
  list and \<open>count = 0\<close>.
\<close>

theorem enhanced_search_all_failed:
  assumes "\<forall>task\<in>set (tasks request). failed (sub_search w task)"
  shows "fst (enhanced_search w ms request) =
           Inr (JObj [(''query'', JStr (query request)),
                      (''search_type'', JStr ''enhanced_parallel''),
                      (''results'', JArr []),
                      (''count'', JInt 0),
                      (''successful_searches'', JInt 0),
                      (''total_searches'', JInt 3),
                      (''cached'', JBool False),
                      (''response_time_ms'', JInt ms)])"
proof -
  obtain results w' where g: "gather w (tasks request) = (results, w')"
    by (cases "gather w (tasks request)")
  have "results = map (sub_search w) (tasks request)"
    using gather_outcomes[of w "tasks request"] g by simp
  then have "\<forall>r\<in>set results. failed r" using assms by simp
  then have "combine [] 0 results = Inr ([], 0)" by (rule combine_all_failed)
  then have "merge_results request ms 3 results =
           Inr (JObj [(''query'', JStr (query request)),
                      (''search_type'', JStr ''enhanced_parallel''),
                      (''results'', JArr []),
                      (''count'', JInt 0),
                      (''successful_searches'', JInt 0),
                      (''total_searches'', JInt 3),
                      (''cached'', JBool False),
                      (''response_time_ms'', JInt ms)])"
    by (simp add: merge_results_def sort_by_score_def slice_to_def list_sort_Nil)
  then show ?thesis using g by (simp add: enhanced_search_def length_tasks)
qed

theorem enhanced_search_all_failed_witness:
  "fst (enhanced_search upstream_down 7 \<lparr>query = ''pasta'', limit = 6\<rparr>) =
           Inr (JObj [(''query'', JStr ''pasta''),
                      (''search_type'', JStr ''enhanced_parallel''),
                      (''results'', JArr []),
                      (''count'', JInt 0),
                      (''successful_searches'', JInt 0),
                      (''total_searches'', JInt 3),
                      (''cached'', JBool False),
                      (''response_time_ms'', JInt 7)])"
proof -
  have h: "\<forall>task\<in>set (tasks \<lparr>query = ''pasta'', limit = 6\<rparr>).
             failed (sub_search upstream_down task)"
    by (simp add: tasks_def failed_def sub_search_def proxy_laravel_request_def
          upstream_down_def)
  show ?thesis using enhanced_search_all_failed[OF h, of 7] by simp
qed

section \<open>Properties of the cached handlers\<close>

lemma run_cached_body:
  "run_cached float_repr w ms call =
     (case get_cached_result w (cache_key_of float_repr call) of
        (Some cached_result, w') \<Rightarrow>
          if truthy cached_result then (annotate cached_result True ms, w')
          else fetch_and_store w' ms (cache_key_of float_repr call)
                 (upstream_path call) (upstream_data call)
      | (None, w') \<Rightarrow>
          fetch_and_store w' ms (cache_key_of float_repr call)
            (upstream_path call) (upstream_data call))"
  by (cases call)
     (simp_all add: search_by_ingredients_def search_by_cuisine_def search_by_dish_def
        general_search_def hybrid_search_def find_similar_recipes_def cached_handler_def
        Let_def split: prod.split option.split)

lemma get_cached_result_world:
  "snd (get_cached_result w key) = w \<or>
   snd (get_cached_result w key) = w\<lparr>io_log := io_log w @ [RedisGet key]\<rparr>"
  by (simp add: get_cached_result_def redis_get_def Let_def split: option.splits prod.splits)

lemma run_cached_miss:
  assumes "\<not> cache_hit float_repr w call"
  shows "run_cached float_repr w ms call =
           fetch_and_store (snd (get_cached_result w (cache_key_of float_repr call))) ms
             (cache_key_of float_repr call) (upstream_path call) (upstream_data call)"
  using assms
  by (cases "get_cached_result w (cache_key_of float_repr call)")
     (auto simp add: run_cached_body cache_hit_def split: option.splits)

lemma proxy_failure:
  assumes "http_client w" and "upstream_failure (laravel w path data) = Some e"
  shows "proxy_laravel_request w path data = (Inl e, w\<lparr>io_log := io_log w @ [HttpPost path data]\<rparr>)"
  using assms
  by (cases "laravel w path data") (simp_all add: proxy_laravel_request_def Let_def)

text \<open>
  C6. On a cached endpoint, when the lookup misses and the upstream call fails with an
  error status or without a response, the handler fails with that typed failure and
  writes nothing to the cache: the store's entries are as before and no write command
  was sent.
\<close>

theorem upstream_failure_not_cached:
  assumes "http_client w"
    and "\<not> cache_hit float_repr w call"
    and "upstream_failure (laravel w (upstream_path call) (upstream_data call)) = Some e"
  shows "fst (run_cached float_repr w ms call) = Inl e
       \<and> redis_data (snd (run_cached float_repr w ms call)) = redis_data w
       \<and> filter is_setex (io_log (snd (run_cached float_repr w ms call)))
           = filter is_setex (io_log w)"
proof -
  let ?w1 = "snd (get_cached_result w (cache_key_of float_repr call))"
  have w1: "?w1 = w \<or> ?w1 = w\<lparr>io_log := io_log w @ [RedisGet (cache_key_of float_repr call)]\<rparr>"
    by (rule get_cached_result_world)
  then have h: "http_client ?w1"
    and l: "laravel ?w1 = laravel w"
    and d: "redis_data ?w1 = redis_data w"
    and g: "filter is_setex (io_log ?w1) = filter is_setex (io_log w)"
    using assms(1) by (auto simp add: is_setex_def)
  have p: "proxy_laravel_request ?w1 (upstream_path call) (upstream_data call) =
          (Inl e, ?w1\<lparr>io_log := io_log ?w1 @ [HttpPost (upstream_path call) (upstream_data call)]\<rparr>)"
    using h assms(3) l by (intro proxy_failure) simp_all
  have "run_cached float_repr w ms call =
          (Inl e, ?w1\<lparr>io_log := io_log ?w1 @ [HttpPost (upstream_path call) (upstream_data call)]\<rparr>)"
    using run_cached_miss[OF assms(2)] p by (simp add: fetch_and_store_def)
  then show ?thesis using d g by (simp add: is_setex_def)
qed

theorem upstream_failure_not_cached_witness:
  "fst (run_cached (\<lambda>r. []) upstream_unavailable 4 (Ingredients \<lparr>ingredients = ''chicken, tomato'', limit = 5\<rparr>))
      = Inl (HTTPException 503 ''Laravel API error'')
   \<and> redis_data (snd (run_cached (\<lambda>r. []) upstream_unavailable 4
         (Ingredients \<lparr>ingredients = ''chicken, tomato'', limit = 5\<rparr>))) = redis_data upstream_unavailable
   \<and> filter is_setex (io_log (snd (run_cached (\<lambda>r. []) upstream_unavailable 4
         (Ingredients \<lparr>ingredients = ''chicken, tomato'', limit = 5\<rparr>))))
       = filter is_setex (io_log upstream_unavailable)"
proof -
  have h1: "http_client upstream_unavailable"
    by (simp add: upstream_unavailable_def)
  have h2: "\<not> cache_hit (\<lambda>r. []) upstream_unavailable
               (Ingredients \<lparr>ingredients = ''chicken, tomato'', limit = 5\<rparr>)"
    by (simp add: cache_hit_def get_cached_result_def redis_get_def upstream_unavailable_def)
  have h3: "upstream_failure (laravel upstream_unavailable
               (upstream_path (Ingredients \<lparr>ingredients = ''chicken, tomato'', limit = 5\<rparr>))
               (upstream_data (Ingredients \<lparr>ingredients = ''chicken, tomato'', limit = 5\<rparr>)))
             = Some (HTTPException 503 ''Laravel API error'')"
    by (simp add: upstream_unavailable_def)
  show ?thesis by (rule upstream_failure_not_cached[OF h1 h2 h3])
qed

lemma get_cached_result_unavailable:
  assumes "\<not> redis_client w \<or> \<not> redis_up w"
  shows "fst (get_cached_result w key) = None"
  using assms by (auto simp add: get_cached_result_def redis_get_def Let_def)

lemma set_cached_result_unavailable:
  assumes "\<not> redis_client w \<or> \<not> redis_up w"
  shows "redis_data (set_cached_result w key v) = redis_data w"
  using assms by (auto simp add: set_cached_result_def redis_setex_def Let_def)

lemma proxy_laravel_request_no_redis_error:
  "fst (proxy_laravel_request w path data) \<noteq> Inl RedisError"
  by (simp add: proxy_laravel_request_def Let_def split: http_outcome.splits option.splits)

lemma annotate_no_redis_error: "annotate result cached ms \<noteq> Inl RedisError"
  by (cases result) (simp_all add: annotate_def)

lemma proxy_laravel_request_outcome:
  "http_client w' = http_client w \<Longrightarrow> laravel w' = laravel w \<Longrightarrow>
     fst (proxy_laravel_request w' path data) = fst (proxy_laravel_request w path data)"
  by (simp add: proxy_laravel_request_def Let_def split: http_outcome.splits option.splits)

lemma fst_fetch_and_store:
  "fst (fetch_and_store w ms key path data) =
     (case fst (proxy_laravel_request w path data) of
        Inl e \<Rightarrow> Inl e
      | Inr result \<Rightarrow> annotate result False ms)"
  by (cases "proxy_laravel_request w path data")
     (auto simp add: fetch_and_store_def split: sum.splits)

text \<open>
  C7. When the cache store is disabled or unreachable, the lookup returns nothing (it
  never raises), the write stores nothing and raises nothing, and a cached endpoint
  returns what the upstream call gives, annotated as fresh: it never fails with an error
  of the store.
\<close>

theorem cache_unavailable_degrades:
  assumes "\<not> redis_client w \<or> \<not> redis_up w"
  shows "fst (get_cached_result w key) = None
       \<and> redis_data (set_cached_result w key v) = redis_data w
       \<and> fst (run_cached float_repr w ms call) =
            (case fst (proxy_laravel_request w (upstream_path call) (upstream_data call)) of
               Inl e \<Rightarrow> Inl e
             | Inr result \<Rightarrow> annotate result False ms)
       \<and> fst (run_cached float_repr w ms call) \<noteq> Inl RedisError"
proof -
  let ?key = "cache_key_of float_repr call"
  let ?w1 = "snd (get_cached_result w ?key)"
  have miss: "\<not> cache_hit float_repr w call"
    using get_cached_result_unavailable[OF assms] by (simp add: cache_hit_def)
  have "?w1 = w \<or> ?w1 = w\<lparr>io_log := io_log w @ [RedisGet ?key]\<rparr>"
    by (rule get_cached_result_world)
  then have "http_client ?w1 = http_client w" and "laravel ?w1 = laravel w" by auto
  then have same: "fst (proxy_laravel_request ?w1 (upstream_path call) (upstream_data call))
             = fst (proxy_laravel_request w (upstream_path call) (upstream_data call))"
    by (rule proxy_laravel_request_outcome)
  have r: "fst (run_cached float_repr w ms call) =
            (case fst (proxy_laravel_request w (upstream_path call) (upstream_data call)) of
               Inl e \<Rightarrow> Inl e
             | Inr result \<Rightarrow> annotate result False ms)"
    using run_cached_miss[OF miss, of ms] same by (simp add: fst_fetch_and_store)
  have "fst (run_cached float_repr w ms call) \<noteq> Inl RedisError"
    unfolding r
    using proxy_laravel_request_no_redis_error[of w "upstream_path call" "upstream_data call"]
    by (auto simp add: annotate_no_redis_error split: sum.splits)
  with r show ?thesis
    using get_cached_result_unavailable[OF assms] set_cached_result_unavailable[OF assms]
    by simp
qed

theorem cache_unavailable_degrades_witness:
  "fst (get_cached_result cache_down ''k'') = None
   \<and> redis_data (set_cached_result cache_down ''k'' JNull) = redis_data cache_down
   \<and> fst (run_cached (\<lambda>r. []) cache_down 4 (Dish \<lparr>dish = ''teriyaki'', limit = 5\<rparr>)) =
        Inr (JObj (pasta_payload @ [(''cached'', JBool False), (''response_time_ms'', JInt 4)]))
   \<and> fst (run_cached (\<lambda>r. []) cache_down 4 (Dish \<lparr>dish = ''teriyaki'', limit = 5\<rparr>))
        \<noteq> Inl RedisError"
proof -
  have h: "\<not> redis_client cache_down \<or> \<not> redis_up cache_down"
    by (simp add: cache_down_def)
  show ?thesis
    using cache_unavailable_degrades[OF h, of "''k''" JNull "\<lambda>r. []" 4
            "Dish \<lparr>dish = ''teriyaki'', limit = 5\<rparr>"]
    by (simp add: proxy_laravel_request_def cache_down_def annotate_def pasta_payload_def)
qed

lemma map_of_dict_set:
  "map_of (dict_set d k v) k' = (if k' = k then Some v else map_of d k')"
  by (induction d) auto

lemma dict_set_not_empty: "dict_set d k v \<noteq> []"
  by (cases d) (auto split: if_splits)

lemma annotate_dict:
  "annotate (JObj d) cached ms =
     Inr (JObj (dict_set (dict_set d ''cached'' (JBool cached)) ''response_time_ms'' (JInt ms)))"
  by (simp add: annotate_def)

lemma get_cached_result_present:
  assumes "redis_client w" and "redis_up w"
    and "redis_data w key = Some (v, expires)" and "now w < expires"
  shows "get_cached_result w key = (Some v, w\<lparr>io_log := io_log w @ [RedisGet key]\<rparr>)"
  using assms by (simp add: get_cached_result_def redis_get_def Let_def)

text \<open>
  C8. On a cached endpoint, when the lookup finds the payload that an earlier miss stored
  (the upstream result annotated at write time), the handler returns that payload with
  \<open>cached\<close> set to true and \<open>response_time_ms\<close> set to the time measured for this
  request; every other field is as stored, which is as the upstream gave it. No request
  goes upstream.
\<close>

theorem cache_hit_returns_stored_payload:
  assumes "redis_client w" and "redis_up w"
    and "redis_data w (cache_key_of float_repr call) = Some (JObj stored, expires)"
    and "now w < expires"
    and "annotate (JObj result) False ms_write = Inr (JObj stored)"
  shows "\<exists>returned.
           run_cached float_repr w ms call =
             (Inr (JObj returned),
              w\<lparr>io_log := io_log w @ [RedisGet (cache_key_of float_repr call)]\<rparr>)
         \<and> returned =
             dict_set (dict_set stored ''cached'' (JBool True)) ''response_time_ms'' (JInt ms)
         \<and> map_of returned ''cached'' = Some (JBool True)
         \<and> map_of returned ''response_time_ms'' = Some (JInt ms)
         \<and> (\<forall>k. k \<noteq> ''cached'' \<and> k \<noteq> ''response_time_ms''
                \<longrightarrow> map_of returned k = map_of stored k)
         \<and> (\<forall>k. k \<noteq> ''cached'' \<and> k \<noteq> ''response_time_ms''
                \<longrightarrow> map_of stored k = map_of result k)"
proof -
  let ?key = "cache_key_of float_repr call"
  let ?returned =
    "dict_set (dict_set stored ''cached'' (JBool True)) ''response_time_ms'' (JInt ms)"
  have stored: "stored =
      dict_set (dict_set result ''cached'' (JBool False)) ''response_time_ms'' (JInt ms_write)"
    using assms(5) by (simp add: annotate_dict)
  then have "truthy (JObj stored)" by (simp add: dict_set_not_empty)
  moreover have "get_cached_result w ?key =
      (Some (JObj stored), w\<lparr>io_log := io_log w @ [RedisGet ?key]\<rparr>)"
    using assms(1-4) by (rule get_cached_result_present)
  ultimately have "run_cached float_repr w ms call =
      (Inr (JObj ?returned), w\<lparr>io_log := io_log w @ [RedisGet ?key]\<rparr>)"
    by (simp add: run_cached_body annotate_dict)
  moreover have "map_of stored k = map_of result k"
    if "k \<noteq> ''cached'' \<and> k \<noteq> ''response_time_ms''" for k
    using that unfolding stored by (simp add: map_of_dict_set)
  ultimately show ?thesis by (simp add: map_of_dict_set)
qed

lemma miss_stores_annotated_result:
  assumes "redis_client w" and "redis_up w" and "http_client w"
    and "\<not> cache_hit float_repr w call"
    and "laravel w (upstream_path call) (upstream_data call) = Response (Some result)"
    and "annotate result False ms = Inr stored"
  shows "fst (run_cached float_repr w ms call) = Inr stored"
    and "redis_data (snd (run_cached float_repr w ms call)) (cache_key_of float_repr call)
           = Some (stored, now w + CACHE_TTL)"
proof -
  let ?key = "cache_key_of float_repr call"
  let ?w1 = "snd (get_cached_result w ?key)"
  have w1: "?w1 = w\<lparr>io_log := io_log w @ [RedisGet ?key]\<rparr>"
    using assms(1,2) by (simp add: get_cached_result_def redis_get_def Let_def split: option.splits)
  have r: "run_cached float_repr w ms call =
          fetch_and_store ?w1 ms ?key (upstream_path call) (upstream_data call)"
    by (rule run_cached_miss[OF assms(4)])
  show "fst (run_cached float_repr w ms call) = Inr stored"
    unfolding r w1 using assms
    by (simp add: fetch_and_store_def proxy_laravel_request_def Let_def)
  show "redis_data (snd (run_cached float_repr w ms call)) ?key = Some (stored, now w + CACHE_TTL)"
    unfolding r w1 using assms
    by (simp add: fetch_and_store_def proxy_laravel_request_def Let_def set_cached_result_def
          redis_setex_def)
qed

theorem cache_hit_returns_stored_payload_witness:
  "\<exists>returned.
     run_cached (\<lambda>r. []) cache_warm 2 (Dish \<lparr>dish = ''teriyaki'', limit = 5\<rparr>) =
       (Inr (JObj returned),
        cache_warm\<lparr>io_log := io_log cache_warm @
           [RedisGet (cache_key_of (\<lambda>r. []) (Dish \<lparr>dish = ''teriyaki'', limit = 5\<rparr>))]\<rparr>)
     \<and> returned =
         dict_set (dict_set (pasta_payload @ [(''cached'', JBool False), (''response_time_ms'', JInt 4)])
                     ''cached'' (JBool True)) ''response_time_ms'' (JInt 2)
     \<and> map_of returned ''cached'' = Some (JBool True)
     \<and> map_of returned ''response_time_ms'' = Some (JInt 2)
     \<and> (\<forall>k. k \<noteq> ''cached'' \<and> k \<noteq> ''response_time_ms''
            \<longrightarrow> map_of returned k =
                 map_of (pasta_payload @ [(''cached'', JBool False), (''response_time_ms'', JInt 4)]) k)
     \<and> (\<forall>k. k \<noteq> ''cached'' \<and> k \<noteq> ''response_time_ms''
            \<longrightarrow> map_of (pasta_payload @ [(''cached'', JBool False), (''response_time_ms'', JInt 4)]) k
                 = map_of pasta_payload k)"
proof -
  have h1: "redis_client cache_warm" and h2: "redis_up cache_warm"
    by (simp_all add: cache_warm_def)
  have h3: "redis_data cache_warm (cache_key_of (\<lambda>r. []) (Dish \<lparr>dish = ''teriyaki'', limit = 5\<rparr>))
      = Some (JObj (pasta_payload @ [(''cached'', JBool False), (''response_time_ms'', JInt 4)]), 3600)"
    by (simp add: cache_warm_def)
  have h4: "now cache_warm < 3600" by (simp add: cache_warm_def)
  have h5: "annotate (JObj pasta_payload) False 4 =
      Inr (JObj (pasta_payload @ [(''cached'', JBool False), (''response_time_ms'', JInt 4)]))"
    by (simp add: annotate_def pasta_payload_def)
  show ?thesis by (rule cache_hit_returns_stored_payload[OF h1 h2 h3 h4 h5])
qed

section \<open>Properties of the endpoints\<close>

lemma str_int_1: "str_int 1 = ''1''"
  by code_simp

text \<open>
  C5. Every search endpoint is to reject a limit outside \<open>[1, 50]\<close> before any cache or
  upstream traffic. The endpoints with a request body do (\<open>validated_endpoints_reject_limit\<close>
  below). \<open>POST /search/similar/1?limit=100\<close> is not rejected: the cache is read, the
  upstream is asked for 100 results and the answer is written to the cache.
\<close>

theorem similar_limit_unchecked:
  "fst (post_search_similar float_repr fresh_world 3 1 (Some 100)) =
     Inr (JObj (pasta_payload @ [(''cached'', JBool False), (''response_time_ms'', JInt 3)]))
   \<and> io_log (snd (post_search_similar float_repr fresh_world 3 1 (Some 100))) =
       [RedisGet (cache_key_of float_repr (Similar 1 100)),
        HttpPost ''/search/similar/1'' [(''limit'', JInt 100)],
        RedisSetex (cache_key_of float_repr (Similar 1 100)) 3600
          (JObj (pasta_payload @ [(''cached'', JBool False), (''response_time_ms'', JInt 3)]))]"
  by (simp add: post_search_similar_def find_similar_recipes_def cached_handler_def
        get_cached_result_def redis_get_def fetch_and_store_def proxy_laravel_request_def
        set_cached_result_def redis_setex_def annotate_def fresh_world_def pasta_payload_def
        CACHE_TTL_def str_int_1 Let_def)

lemma validated_endpoints_reject_limit:
  "\<not> valid_limit (IngredientSearchRequest.limit r1) \<Longrightarrow>
     post_search_ingredients float_repr w ms r1 = (Inl RequestValidationError, w)"
  "\<not> valid_limit (CuisineSearchRequest.limit r2) \<Longrightarrow>
     post_search_cuisine float_repr w ms r2 = (Inl RequestValidationError, w)"
  "\<not> valid_limit (DishSearchRequest.limit r3) \<Longrightarrow>
     post_search_dish float_repr w ms r3 = (Inl RequestValidationError, w)"
  "\<not> valid_limit (SearchRequest.limit r4) \<Longrightarrow>
     post_search_general float_repr w ms r4 = (Inl RequestValidationError, w)"
  "\<not> valid_limit (SearchRequest.limit r4) \<Longrightarrow>
     post_search_hybrid float_repr w ms r4 = (Inl RequestValidationError, w)"
  "\<not> valid_limit (SearchRequest.limit r4) \<Longrightarrow>
     post_search_enhanced w ms r4 = (Inl RequestValidationError, w)"
  by (simp_all add: post_search_ingredients_def post_search_cuisine_def post_search_dish_def
        post_search_general_def post_search_hybrid_def post_search_enhanced_def)

section \<open>Properties of the enhanced search: removing duplicates\<close>

lemma find_distinct_key:
  assumes "distinct (map f xs)" and "r \<in> set xs"
  shows "find (\<lambda>x. f x = f r) xs = Some r"
  using assms by (induction xs) auto


lemma keys_keep_first: "key ` set (keep_first key xs) = key ` set xs"
proof (induction xs)
  case Nil
  show ?case by simp
next
  case (Cons x xs)
  have "key ` set (filter (\<lambda>y. key y \<noteq> key x) (keep_first key xs))
          = key ` set (keep_first key xs) - {key x}"
    by auto
  then show ?case using Cons by auto
qed

lemma distinct_keep_first: "distinct (map key (keep_first key xs))"
  by (induction xs) (auto simp add: distinct_map_filter)

lemma find_keep_first:
  "r \<in> set (keep_first key xs) \<Longrightarrow> find (\<lambda>x. key x = key r) xs = Some r"
  by (induction xs) auto

lemma unique_loop_keep_first:
  assumes "unique_loop seen_ids acc xs = Inr u"
  shows "u = acc @ filter (\<lambda>y. recipe_key y \<notin> Inr ` seen_ids) (keep_first recipe_key xs)"
  using assms
proof (induction xs arbitrary: seen_ids acc)
  case Nil
  then show ?case by simp
next
  case (Cons x xs)
  from Cons.prems obtain h where h: "recipe_key x = Inr h"
    by (auto simp add: recipe_key_def split: sum.splits)
  show ?case
  proof (cases "h \<in> seen_ids")
    case False
    have run: "unique_loop (insert h seen_ids) (acc @ [x]) xs = Inr u"
      using Cons.prems h False by (auto simp add: recipe_key_def split: sum.splits)
    have "filter (\<lambda>y. recipe_key y \<notin> Inr ` insert h seen_ids) (keep_first recipe_key xs)
            = filter (\<lambda>y. recipe_key y \<notin> Inr ` seen_ids)
                (filter (\<lambda>y. recipe_key y \<noteq> recipe_key x) (keep_first recipe_key xs))"
      using h by (auto intro: filter_cong)
    with Cons.IH[OF run] h False show ?thesis by auto
  next
    case True
    have run: "unique_loop seen_ids acc xs = Inr u"
      using Cons.prems h True by (auto simp add: recipe_key_def split: sum.splits)
    have "filter (\<lambda>y. recipe_key y \<notin> Inr ` seen_ids) (keep_first recipe_key xs)
            = filter (\<lambda>y. recipe_key y \<notin> Inr ` seen_ids)
                (filter (\<lambda>y. recipe_key y \<noteq> recipe_key x) (keep_first recipe_key xs))"
      using h True by (auto intro: filter_cong)
    with Cons.IH[OF run] h True show ?thesis by auto
  qed
qed

lemma unique_loop_keys:
  "unique_loop seen_ids acc xs = Inr u \<Longrightarrow> \<forall>x\<in>set xs. \<exists>h. recipe_key x = Inr h"
proof (induction xs arbitrary: seen_ids acc)
  case Nil
  show ?case by simp
next
  case (Cons x xs)
  from Cons.prems obtain h where h: "recipe_key x = Inr h"
    by (auto simp add: recipe_key_def split: sum.splits)
  from Cons.prems h have
    "unique_loop (insert h seen_ids) (acc @ [x]) xs = Inr u \<or> unique_loop seen_ids acc xs = Inr u"
    by (auto simp add: recipe_key_def split: sum.splits if_splits)
  then have "\<forall>y\<in>set xs. \<exists>h. recipe_key y = Inr h" using Cons.IH by blast
  with h show ?case by simp
qed


lemma unique_loop_pool:
  "unique_loop {} [] pool = Inr u \<Longrightarrow> u = keep_first recipe_key pool"
  using unique_loop_keep_first[of "{}" "[]" pool u] by simp

section \<open>Properties of \<open>list.sort\<close>: the result is a permutation\<close>

lemma mset_take_drop: "mset (take k a) + mset (drop k a) = mset a"
  by (metis append_take_drop_id mset_append)

lemma binarysort_mset:
  "binarysort lt run todo = Inr r \<Longrightarrow> mset r = mset run + mset todo"
proof (induction todo arbitrary: run)
  case Nil
  then show ?case by simp
next
  case (Cons pivot todo)
  from Cons.prems obtain l where
    r: "binarysort lt (take l run @ pivot # drop l run) todo = Inr r"
    by (auto split: sum.splits)
  have "mset (take l run @ pivot # drop l run) = mset (take l run) + mset (drop l run) + {#pivot#}"
    by simp
  then have "mset (take l run @ pivot # drop l run) = mset run + {#pivot#}"
    by (simp only: mset_take_drop)
  with Cons.IH[OF r] show ?case by simp
qed

lemma mset_hd_tl: "b \<noteq> [] \<Longrightarrow> mset b = add_mset (hd b) (mset (tl b))"
  by (cases b) simp_all

lemma mset_butlast_last: "b \<noteq> [] \<Longrightarrow> mset b = add_mset (last b) (mset (butlast b))"
  by (cases b rule: rev_cases) simp_all

lemma lo_mset:
  "lo_seq lt out a b acount bcount min_gallop ms_min_gallop = Inr (r, g) \<Longrightarrow>
     mset r = mset out + mset a + mset b"
  "lo_gallop lt out a b min_gallop ms_min_gallop = Inr (r, g) \<Longrightarrow>
     mset r = mset out + mset a + mset b"
proof (induction lt out a b acount bcount min_gallop ms_min_gallop
         and lt out a b min_gallop ms_min_gallop arbitrary: r g and r g
         rule: lo_seq_lo_gallop.induct)
  case (1 lt out a b acount bcount min_gallop ms_min_gallop)
  show ?case
  proof (cases "a = [] \<or> b = []")
    case True
    with "1.prems" show ?thesis by (auto simp add: lo_seq.simps)
  next
    case False
    then have ne: "a \<noteq> []" "b \<noteq> []" by auto
    from "1.prems" False obtain k where k: "lt (hd b) (hd a) = Inr k"
      by (subst (asm) lo_seq.simps) (auto split: sum.splits)
    show ?thesis
      using "1.prems" "1.IH"(1)[OF False k] "1.IH"(2)[OF False k] "1.IH"(3)[OF False k]
        "1.IH"(4)[OF False k] mset_hd_tl[OF ne(1)] mset_hd_tl[OF ne(2)] False k
      by (subst (asm) lo_seq.simps) (auto split: if_splits)
  qed
next
  case (2 lt out a b min_gallop ms_min_gallop)
  show ?case
  proof (cases "a = [] \<or> b = []")
    case True
    with "2.prems" show ?thesis by (auto simp add: lo_gallop.simps)
  next
    case False
    then have ne: "a \<noteq> []" "b \<noteq> []" by auto
    from "2.prems" False obtain k where k: "gallop_right lt (hd b) a 0 = Inr k"
      by (subst (asm) lo_gallop.simps) (auto split: sum.splits)
    note td = mset_take_drop[of k a, symmetric]
    show ?thesis
    proof (cases "(k \<noteq> 0 \<and> length (drop k a) = 1) \<or> (k \<noteq> 0 \<and> drop k a = []) \<or> tl b = []")
      case True
      then show ?thesis
        using "2.prems" False k td mset_hd_tl[OF ne(2)]
        by (subst (asm) lo_gallop.simps) (auto split: if_splits)
    next
      case c: False
      then have dne: "drop k a \<noteq> []" using ne by (cases "k = 0") auto
      from "2.prems" False k c obtain k' where
        k': "gallop_left lt (hd (drop k a)) (tl b) 0 = Inr k'"
        by (subst (asm) lo_gallop.simps) (auto split: sum.splits if_splits)
      note td' = mset_take_drop[of k' "tl b", symmetric]
      have c1: "\<not> (k \<noteq> 0 \<and> length (drop k a) = 1)" "\<not> (k \<noteq> 0 \<and> drop k a = [])"
        "tl b \<noteq> []" using c by auto
      let ?g = "min_gallop - (if 1 < min_gallop then 1 else 0)"
      let ?out = "out @ take k a @ [hd b] @ take k' (tl b) @ [hd (drop k a)]"
      have eq: "lo_gallop lt out a b min_gallop ms_min_gallop =
          (if k' \<noteq> 0 \<and> drop k' (tl b) = []
           then Inr (out @ take k a @ [hd b] @ tl b @ drop k a, ?g)
           else if length (tl (drop k a)) = 1
           then Inr (out @ take k a @ [hd b] @ take k' (tl b) @ [hd (drop k a)]
                       @ drop k' (tl b) @ tl (drop k a), ?g)
           else if MIN_GALLOP \<le> k \<or> MIN_GALLOP \<le> k'
           then lo_gallop lt ?out (tl (drop k a)) (drop k' (tl b)) ?g ?g
           else lo_seq lt ?out (tl (drop k a)) (drop k' (tl b)) 0 0 (?g + 1) (?g + 1))"
        by (subst lo_gallop.simps) (simp only: False k k' c1 if_False sum.case)
      have all: "mset out + mset a + mset b =
          mset out + mset (take k a) + {#hd b#} + mset (take k' (tl b)) + {#hd (drop k a)#}
            + mset (tl (drop k a)) + mset (drop k' (tl b))"
        using td td' mset_hd_tl[OF ne(2)] mset_hd_tl[OF dne] by simp
      consider (x) "k' \<noteq> 0 \<and> drop k' (tl b) = []"
        | (y) "\<not> (k' \<noteq> 0 \<and> drop k' (tl b) = [])" "length (tl (drop k a)) = 1"
        | (z) "\<not> (k' \<noteq> 0 \<and> drop k' (tl b) = [])" "length (tl (drop k a)) \<noteq> 1"
              "MIN_GALLOP \<le> k \<or> MIN_GALLOP \<le> k'"
        | (u) "\<not> (k' \<noteq> 0 \<and> drop k' (tl b) = [])" "length (tl (drop k a)) \<noteq> 1"
              "\<not> (MIN_GALLOP \<le> k \<or> MIN_GALLOP \<le> k')"
        by blast
      then show ?thesis
      proof cases
        case x
        from eq[unfolded if_P[OF x]] "2.prems" have "r = out @ take k a @ [hd b] @ tl b @ drop k a" by simp
        then show ?thesis using td mset_hd_tl[OF ne(2)] by simp
      next
        case y
        from eq[unfolded if_not_P[OF y(1)] if_P[OF y(2)]] "2.prems" have "r = out @ take k a @ [hd b] @ take k' (tl b) @ [hd (drop k a)]
                       @ drop k' (tl b) @ tl (drop k a)" by simp
        then show ?thesis using all by simp
      next
        case z
        from eq[unfolded if_not_P[OF z(1)] if_not_P[OF z(2)] if_P[OF z(3)]] "2.prems" have "lo_gallop lt ?out (tl (drop k a)) (drop k' (tl b)) ?g ?g = Inr (r, g)"
          by simp
        from "2.IH"(1)[OF False k c1 k' z this] show ?thesis using all by simp
      next
        case u
        from eq[unfolded if_not_P[OF u(1)] if_not_P[OF u(2)] if_not_P[OF u(3)]] "2.prems"
        have "lo_seq lt ?out (tl (drop k a)) (drop k' (tl b)) 0 0 (?g + 1) (?g + 1) = Inr (r, g)"
          by simp
        from "2.IH"(2)[OF False k c1 k' u this] show ?thesis using all by simp
      qed
    qed
  qed
qed


lemma hi_mset:
  "hi_seq lt out a b acount bcount min_gallop ms_min_gallop = Inr (r, g) \<Longrightarrow>
     mset r = mset a + mset b + mset out"
  "hi_gallop lt out a b min_gallop ms_min_gallop = Inr (r, g) \<Longrightarrow>
     mset r = mset a + mset b + mset out"
proof (induction lt out a b acount bcount min_gallop ms_min_gallop
         and lt out a b min_gallop ms_min_gallop arbitrary: r g and r g
         rule: hi_seq_hi_gallop.induct)
  case (1 lt out a b acount bcount min_gallop ms_min_gallop)
  show ?case
  proof (cases "a = [] \<or> b = []")
    case True
    with "1.prems" show ?thesis by (auto simp add: hi_seq.simps)
  next
    case False
    then have ne: "a \<noteq> []" "b \<noteq> []" by auto
    from "1.prems" False obtain k where k: "lt (last b) (last a) = Inr k"
      by (subst (asm) hi_seq.simps) (auto split: sum.splits)
    show ?thesis
      using "1.prems" "1.IH"(1)[OF False k] "1.IH"(2)[OF False k] "1.IH"(3)[OF False k]
        "1.IH"(4)[OF False k] mset_butlast_last[OF ne(1)] mset_butlast_last[OF ne(2)] False k
      by (subst (asm) hi_seq.simps) (auto split: if_splits)
  qed
next
  case (2 lt out a b min_gallop ms_min_gallop)
  show ?case
  proof (cases "a = [] \<or> b = []")
    case True
    with "2.prems" show ?thesis by (auto simp add: hi_gallop.simps)
  next
    case False
    then have ne: "a \<noteq> []" "b \<noteq> []" by auto
    from "2.prems" False obtain k where k: "gallop_right lt (last b) a (length a - 1) = Inr k"
      by (subst (asm) hi_gallop.simps) (auto split: sum.splits)
    note td = mset_take_drop[of k a, symmetric]
    show ?thesis
    proof (cases "(k \<noteq> length a \<and> take k a = []) \<or> length (butlast b) = 1")
      case True
      then show ?thesis
        using "2.prems" False k td mset_butlast_last[OF ne(2)]
        by (subst (asm) hi_gallop.simps) (auto split: if_splits)
    next
      case c: False
      then have tne: "take k a \<noteq> []" using ne by (cases "k = length a") auto
      have c1: "\<not> (k \<noteq> length a \<and> take k a = [])" "length (butlast b) \<noteq> 1"
        using c by auto
      from "2.prems" False k c obtain k' where
        k': "gallop_left lt (last (take k a)) (butlast b) (length (butlast b) - 1) = Inr k'"
        by (subst (asm) hi_gallop.simps) (auto split: sum.splits if_splits)
      note td' = mset_take_drop[of k' "butlast b", symmetric]
      let ?g = "min_gallop - (if 1 < min_gallop then 1 else 0)"
      let ?out = "last (take k a) # drop k' (butlast b) @ [last b] @ drop k a @ out"
      have eq: "hi_gallop lt out a b min_gallop ms_min_gallop =
          (if k' \<noteq> length (butlast b) \<and> length (take k' (butlast b)) = 1
           then Inr (take k' (butlast b) @ take k a @ drop k' (butlast b) @ [last b]
                       @ drop k a @ out, ?g)
           else if k' \<noteq> length (butlast b) \<and> take k' (butlast b) = []
           then Inr (take k a @ butlast b @ [last b] @ drop k a @ out, ?g)
           else if butlast (take k a) = []
           then Inr (take k' (butlast b) @ [last (take k a)] @ drop k' (butlast b)
                       @ [last b] @ drop k a @ out, ?g)
           else if MIN_GALLOP \<le> length a - k \<or> MIN_GALLOP \<le> length (butlast b) - k'
           then hi_gallop lt ?out (butlast (take k a)) (take k' (butlast b)) ?g ?g
           else hi_seq lt ?out (butlast (take k a)) (take k' (butlast b)) 0 0 (?g + 1) (?g + 1))"
        by (subst hi_gallop.simps) (simp only: False k k' c1 if_False sum.case)
      have all: "mset a + mset b + mset out =
          mset (butlast (take k a)) + {#last (take k a)#} + mset (drop k a)
            + mset (take k' (butlast b)) + mset (drop k' (butlast b)) + {#last b#} + mset out"
        using td td' mset_butlast_last[OF ne(2)] mset_butlast_last[OF tne] by simp
      consider (x) "k' \<noteq> length (butlast b) \<and> length (take k' (butlast b)) = 1"
        | (y) "\<not> (k' \<noteq> length (butlast b) \<and> length (take k' (butlast b)) = 1)"
              "k' \<noteq> length (butlast b) \<and> take k' (butlast b) = []"
        | (z) "\<not> (k' \<noteq> length (butlast b) \<and> length (take k' (butlast b)) = 1)"
              "\<not> (k' \<noteq> length (butlast b) \<and> take k' (butlast b) = [])"
              "butlast (take k a) = []"
        | (v) "\<not> (k' \<noteq> length (butlast b) \<and> length (take k' (butlast b)) = 1)"
              "\<not> (k' \<noteq> length (butlast b) \<and> take k' (butlast b) = [])"
              "butlast (take k a) \<noteq> []"
              "MIN_GALLOP \<le> length a - k \<or> MIN_GALLOP \<le> length (butlast b) - k'"
        | (u) "\<not> (k' \<noteq> length (butlast b) \<and> length (take k' (butlast b)) = 1)"
              "\<not> (k' \<noteq> length (butlast b) \<and> take k' (butlast b) = [])"
              "butlast (take k a) \<noteq> []"
              "\<not> (MIN_GALLOP \<le> length a - k \<or> MIN_GALLOP \<le> length (butlast b) - k')"
        by blast
      then show ?thesis
      proof cases
        case x
        from eq[unfolded if_P[OF x]] "2.prems"
        have "r = take k' (butlast b) @ take k a @ drop k' (butlast b) @ [last b]
                       @ drop k a @ out" by simp
        then show ?thesis using td td' mset_butlast_last[OF ne(2)] by simp
      next
        case y
        from eq[unfolded if_not_P[OF y(1)] if_P[OF y(2)]] "2.prems"
        have "r = take k a @ butlast b @ [last b] @ drop k a @ out" by simp
        then show ?thesis using td mset_butlast_last[OF ne(2)] by simp
      next
        case z
        from eq[unfolded if_not_P[OF z(1)] if_not_P[OF z(2)] if_P[OF z(3)]] "2.prems"
        have "r = take k' (butlast b) @ [last (take k a)] @ drop k' (butlast b)
                       @ [last b] @ drop k a @ out" by simp
        then show ?thesis using all z(3) by simp
      next
        case v
        from eq[unfolded if_not_P[OF v(1)] if_not_P[OF v(2)] if_not_P[OF v(3)] if_P[OF v(4)]]
          "2.prems"
        have "hi_gallop lt ?out (butlast (take k a)) (take k' (butlast b)) ?g ?g = Inr (r, g)"
          by simp
        from "2.IH"(1)[OF False k c1 k' v(1,2,3,4) this] show ?thesis using all by simp
      next
        case u
        from eq[unfolded if_not_P[OF u(1)] if_not_P[OF u(2)] if_not_P[OF u(3)] if_not_P[OF u(4)]]
          "2.prems"
        have "hi_seq lt ?out (butlast (take k a)) (take k' (butlast b)) 0 0 (?g + 1) (?g + 1)
                = Inr (r, g)"
          by simp
        from "2.IH"(2)[OF False k c1 k' u(1,2,3,4) this] show ?thesis using all by simp
      qed
    qed
  qed
qed

lemma merge_lo_mset:
  "merge_lo lt a b g = Inr (r, g') \<Longrightarrow> mset r = mset a + mset b"
  using lo_mset(1)[of lt "[hd b]" a "tl b" 0 0 g g r g'] mset_hd_tl[of b]
  by (cases "b = []") (auto simp add: merge_lo_def split: if_splits)

lemma merge_hi_mset:
  "merge_hi lt a b g = Inr (r, g') \<Longrightarrow> mset r = mset a + mset b"
  using hi_mset(1)[of lt "[last a]" "butlast a" b 0 0 g g r g'] mset_butlast_last[of a]
  by (cases "a = []") (auto simp add: merge_hi_def split: if_splits)

lemma merge_runs_mset:
  assumes "merge_runs lt a b g = Inr (r, g')"
  shows "mset r = mset a + mset b"
proof -
  from assms(1) obtain k where k: "gallop_right lt (hd b) a 0 = Inr k"
    by (auto simp add: merge_runs_def split: sum.splits)
  show ?thesis
  proof (cases "drop k a = []")
    case True
    with assms(1) k show ?thesis by (auto simp add: merge_runs_def)
  next
    case dne: False
    from assms(1) k dne obtain nb where nb: "gallop_left lt (last a) b (length b - 1) = Inr nb"
      by (auto simp add: merge_runs_def split: sum.splits)
    show ?thesis
    proof (cases "nb = 0")
      case True
      with assms(1) k dne nb show ?thesis by (auto simp add: merge_runs_def)
    next
      case False
      from assms(1) k dne nb False obtain merged where
        m: "(if length (drop k a) \<le> nb
             then merge_lo lt (drop k a) (take nb b) g
             else merge_hi lt (drop k a) (take nb b) g) = Inr (merged, g')"
        and r: "r = take k a @ merged @ drop nb b"
        by (auto simp add: merge_runs_def split: sum.splits)
      from m have "mset merged = mset (drop k a) + mset (take nb b)"
        using merge_lo_mset merge_hi_mset by (auto split: if_splits)
      then show ?thesis
        using r mset_take_drop[of k a, symmetric] mset_take_drop[of nb b, symmetric] by simp
    qed
  qed
qed

lemma runs_mset_simps [simp]:
  "runs_mset [] = {#}"
  "runs_mset ((s, r, p) # pending) = mset r + runs_mset pending"
  by (simp_all add: runs_mset_def)

lemma collapse_mset:
  "collapse lt new_power pending g = Inr (pending', g') \<Longrightarrow> runs_mset pending' = runs_mset pending"
proof (induction lt new_power pending g arbitrary: pending' g' rule: collapse.induct)
  case (1 lt new_power s2 r2 p2 s1 r1 p1 pending g)
  show ?case
  proof (cases "new_power < p1")
    case True
    with "1.prems" obtain merged g1 where
      m: "merge_runs lt r1 r2 g = Inr (merged, g1)"
      and c: "collapse lt new_power ((s1, merged, p1) # pending) g1 = Inr (pending', g')"
      by (auto split: sum.splits)
    from "1.IH"[OF True m refl c] merge_runs_mset[OF m] show ?thesis by simp
  next
    case False
    with "1.prems" show ?thesis by auto
  qed
qed auto

lemma found_new_run_mset:
  "found_new_run lt pending n2 listlen g = Inr (pending', g') \<Longrightarrow>
     runs_mset pending' = runs_mset pending"
  by (auto simp add: found_new_run_def split: list.splits dest: collapse_mset)

lemma merge_force_collapse_mset:
  "merge_force_collapse lt pending g = Inr (pending', g') \<Longrightarrow>
     runs_mset pending' = runs_mset pending"
proof (induction lt pending g arbitrary: pending' g' rule: merge_force_collapse.induct)
  case (1 lt s2 r2 p2 s1 r1 p1 s0 r0 p0 pending g)
  show ?case
  proof (cases "length r0 < length r2")
    case True
    with "1.prems" obtain merged g1 where
      m: "merge_runs lt r0 r1 g = Inr (merged, g1)"
      and c: "merge_force_collapse lt ((s2, r2, p2) # (s0, merged, p0) # pending) g1
                = Inr (pending', g')"
      by (auto split: sum.splits)
    from "1.IH"(1)[OF True m refl c] merge_runs_mset[OF m] show ?thesis by simp
  next
    case False
    with "1.prems" obtain merged g1 where
      m: "merge_runs lt r1 r2 g = Inr (merged, g1)"
      and c: "merge_force_collapse lt ((s1, merged, p1) # (s0, r0, p0) # pending) g1
                = Inr (pending', g')"
      by (auto split: sum.splits)
    from "1.IH"(2)[OF False m refl c] merge_runs_mset[OF m] show ?thesis by simp
  qed
next
  case (2 lt s2 r2 p2 s1 r1 p1 g)
  then show ?case by (auto split: sum.splits dest: merge_runs_mset)
qed auto

lemma count_asc_bounds:
  "count_asc lt prev xs n = Inr m \<Longrightarrow> n \<le> m \<and> m \<le> n + length xs"
  by (induction xs arbitrary: prev n) (fastforce split: sum.splits if_splits)+

lemma count_desc_bounds:
  "count_desc lt prev xs n = Inr m \<Longrightarrow> n \<le> m \<and> m \<le> n + length xs"
  by (induction xs arbitrary: prev n) (fastforce split: sum.splits if_splits)+

lemma count_run_bounds:
  "count_run lt xs = Inr (n, d) \<Longrightarrow> n \<le> length xs \<and> (xs \<noteq> [] \<longrightarrow> 0 < n)"
  by (cases "(lt, xs)" rule: count_run.cases)
     (auto split: sum.splits if_splits dest: count_asc_bounds count_desc_bounds)

lemma runs_loop_mset:
  "runs_loop lt rest start listlen minrun pending g = Inr (pending', g') \<Longrightarrow>
     runs_mset pending' = runs_mset pending + mset rest"
proof (induction lt rest start listlen minrun pending g arbitrary: pending' g'
         rule: runs_loop.induct)
  case (1 lt rest start listlen minrun pending g)
  show ?case
  proof (cases "rest = []")
    case True
    with "1.prems" show ?thesis by (simp add: runs_loop.simps)
  next
    case False
    from "1.prems" False obtain n descending where
      cr: "count_run lt rest = Inr (n, descending)"
      by (subst (asm) runs_loop.simps) (auto split: sum.splits)
    let ?first = "if descending then rev (take n rest) else take n rest"
    let ?n' = "min minrun (length rest)"
    let ?ext = "if n < minrun
                then (case binarysort lt ?first (take (?n' - n) (drop n rest)) of
                        Inl e \<Rightarrow> Inl e
                      | Inr run \<Rightarrow> Inr (run, ?n'))
                else Inr (?first, n)"
    from "1.prems" False cr obtain run n' where ext: "?ext = Inr (run, n')"
      by (subst (asm) runs_loop.simps) (auto split: sum.splits)
    have nle: "n \<le> length rest" using count_run_bounds[OF cr] by simp
    have run: "mset run = mset (take n' rest)"
    proof (cases "n < minrun")
      case True
      with ext obtain b where
        b: "binarysort lt ?first (take (?n' - n) (drop n rest)) = Inr run" and n': "n' = ?n'"
        by (auto split: sum.splits)
      have "n \<le> ?n'" using True nle by simp
      then have "take ?n' rest = take n rest @ take (?n' - n) (drop n rest)"
        by (metis le_add_diff_inverse take_add)
      then show ?thesis using binarysort_mset[OF b] n' by (simp split: if_splits)
    next
      case False
      with ext show ?thesis by (auto split: if_splits)
    qed
    have eq: "runs_loop lt rest start listlen minrun pending g =
        (if n' = 0 then Inr (pending, g)
         else
           (case found_new_run lt pending n' listlen g of
              Inl e \<Rightarrow> Inl e
            | Inr (pending', ms_min_gallop') \<Rightarrow>
                runs_loop lt (drop n' rest) (start + n') listlen minrun
                  ((start, run, 0) # pending') ms_min_gallop'))"
      by (subst runs_loop.simps) (simp only: False cr ext if_False sum.case prod.case)
    show ?thesis
    proof (cases "n' = 0")
      case True
      with "1.prems" eq have "pending' = pending" by simp
      moreover have "rest = []"
        using True ext count_run_bounds[OF cr] False by (auto split: if_splits sum.splits)
      ultimately show ?thesis using False by simp
    next
      case n0: False
      from "1.prems" eq n0 obtain pending1 g1 where
        f: "found_new_run lt pending n' listlen g = Inr (pending1, g1)"
        and l: "runs_loop lt (drop n' rest) (start + n') listlen minrun
                  ((start, run, 0) # pending1) g1 = Inr (pending', g')"
        by (auto split: sum.splits)
      from "1.IH"[OF False cr refl ext refl n0 f refl l]
      show ?thesis
        using found_new_run_mset[OF f] run mset_take_drop[of n' rest, symmetric] by simp
    qed
  qed
qed

lemma timsort_mset: "timsort lt xs = Inr ys \<Longrightarrow> mset ys = mset xs"
proof -
  assume a: "timsort lt xs = Inr ys"
  show ?thesis
  proof (cases "length xs < 2")
    case True
    with a show ?thesis by (simp add: timsort_def)
  next
    case False
    with a obtain pending g pending' g' where
      l: "runs_loop lt xs 0 (length xs) (merge_compute_minrun (length xs) 0) [] MIN_GALLOP
            = Inr (pending, g)"
      and m: "merge_force_collapse lt pending g = Inr (pending', g')"
      and ys: "ys = concat (rev (map (fst \<circ> snd) pending'))"
      by (auto simp add: timsort_def split: sum.splits)
    have "mset ys = runs_mset pending'"
      unfolding ys runs_mset_def by (simp add: mset_concat rev_map[symmetric])
    then show ?thesis using runs_loop_mset[OF l] merge_force_collapse_mset[OF m] by simp
  qed
qed

section \<open>Properties of \<open>list.sort\<close>: items that \<open><\<close> ranks\<close>

lemma length_filter_mono:
  "(\<And>x. x \<in> set xs \<Longrightarrow> P x \<Longrightarrow> Q x) \<Longrightarrow> length (filter P xs) \<le> length (filter Q xs)"
  by (induction xs) auto

lemma length_filter_strict:
  "(\<And>x. x \<in> set xs \<Longrightarrow> P x \<Longrightarrow> Q x) \<Longrightarrow> a \<in> set xs \<Longrightarrow> Q a \<Longrightarrow> \<not> P a \<Longrightarrow>
     length (filter P xs) < length (filter Q xs)"
proof (induction xs)
  case Nil
  then show ?case by simp
next
  case (Cons x xs)
  have le: "length (filter P xs) \<le> length (filter Q xs)"
    using Cons.prems(1) by (intro length_filter_mono) auto
  show ?case
  proof (cases "x = a")
    case True
    then show ?thesis using Cons.prems le by auto
  next
    case False
    then have "length (filter P xs) < length (filter Q xs)"
      using Cons by auto
    then show ?thesis using Cons.prems(1)[of x] by auto
  qed
qed

lemma rank_ranked:
  fixes f :: "'a \<Rightarrow> 'k::linorder"
  assumes "\<forall>a\<in>set xs. \<forall>b\<in>set xs. lt a b = Inr (f a < f b)" "a \<in> set xs"
  shows "rank lt xs a = length (filter (\<lambda>c. f c < f a) xs)"
  unfolding rank_def using assms by (intro arg_cong[where f = length] filter_cong) auto

lemma rank_less_iff:
  fixes f :: "'a \<Rightarrow> 'k::linorder"
  assumes r: "\<forall>a\<in>set xs. \<forall>b\<in>set xs. lt a b = Inr (f a < f b)"
    and a: "a \<in> set xs" and b: "b \<in> set xs"
  shows "rank lt xs a < rank lt xs b \<longleftrightarrow> f a < f b"
proof
  assume "f a < f b"
  then have "length (filter (\<lambda>c. f c < f a) xs) < length (filter (\<lambda>c. f c < f b) xs)"
    using a by (intro length_filter_strict[where a = a]) auto
  then show "rank lt xs a < rank lt xs b"
    using rank_ranked[OF r a] rank_ranked[OF r b] by simp
next
  assume l: "rank lt xs a < rank lt xs b"
  show "f a < f b"
  proof (rule ccontr)
    assume "\<not> f a < f b"
    then have "length (filter (\<lambda>c. f c < f b) xs) \<le> length (filter (\<lambda>c. f c < f a) xs)"
      by (intro length_filter_mono) auto
    then show False using l rank_ranked[OF r a] rank_ranked[OF r b] by simp
  qed
qed

lemma ranked_consistent:
  fixes f :: "'a \<Rightarrow> 'k::linorder"
  assumes "\<forall>a\<in>set xs. \<forall>b\<in>set xs. lt a b = Inr (f a < f b)"
  shows "consistent lt xs"
  unfolding consistent_def using assms rank_less_iff[OF assms] by simp

lemma sort_key_ranked:
  fixes f :: "'a \<Rightarrow> 'k::linorder"
  assumes r: "\<forall>a\<in>set xs. \<forall>b\<in>set xs. lt a b = Inr (f a < f b)" and ys: "set ys = set xs"
  shows "sort_key (rank lt xs) ys = sort_key f ys"
proof (rule properties_for_sort_key)
  show "mset (sort_key f ys) = mset ys" by simp
  have le: "rank lt xs a \<le> rank lt xs b" if "f a \<le> f b" "a \<in> set xs" "b \<in> set xs" for a b
    using rank_less_iff[OF r that(3) that(2)] that(1) by (simp add: not_less[symmetric])
  have eq: "rank lt xs a = rank lt xs b \<longleftrightarrow> f a = f b" if "a \<in> set xs" "b \<in> set xs" for a b
    using rank_less_iff[OF r that(1) that(2)] rank_less_iff[OF r that(2) that(1)]
    by (metis less_irrefl linorder_neqE linorder_neqE_nat)
  have "sorted_wrt (\<lambda>a b. f a \<le> f b) (sort_key f ys)"
    using sorted_sort_key[of f ys] by (simp add: sorted_map)
  then have "sorted_wrt (\<lambda>a b. rank lt xs a \<le> rank lt xs b) (sort_key f ys)"
    by (rule sorted_wrt_mono_rel[rotated]) (use le ys in auto)
  then show "sorted (map (rank lt xs) (sort_key f ys))" by (simp add: sorted_map)
  show "\<And>k. k \<in> set (sort_key f ys) \<Longrightarrow>
         filter (\<lambda>x. rank lt xs k = rank lt xs x) (sort_key f ys)
           = filter (\<lambda>x. rank lt xs k = rank lt xs x) ys"
  proof -
    fix k assume k: "k \<in> set (sort_key f ys)"
    then have kx: "k \<in> set xs" using ys by simp
    have "filter (\<lambda>x. rank lt xs k = rank lt xs x) (sort_key f ys)
            = filter (\<lambda>x. f x = f k) (sort_key f ys)"
      using eq[OF kx] ys by (intro filter_cong) auto
    also have "\<dots> = filter (\<lambda>x. f x = f k) ys" by (rule sort_key_stable)
    also have "\<dots> = filter (\<lambda>x. rank lt xs k = rank lt xs x) ys"
      using eq[OF kx] ys by (intro filter_cong) auto
    finally show "filter (\<lambda>x. rank lt xs k = rank lt xs x) (sort_key f ys)
           = filter (\<lambda>x. rank lt xs k = rank lt xs x) ys" .
  qed
qed

lemma list_sort_ranked:
  fixes f :: "'a \<Rightarrow> 'k::linorder"
  assumes "\<forall>a\<in>set xs. \<forall>b\<in>set xs. lt a b = Inr (f a < f b)"
  shows "list_sort lt reverse xs =
           Inr (if reverse then rev (sort_key f (rev xs)) else sort_key f xs)"
  using ranked_consistent[OF assms] sort_key_ranked[OF assms, of xs]
    sort_key_ranked[OF assms, of "rev xs"]
  by (simp add: list_sort_def)

lemma list_sort_mset: "list_sort lt reverse xs = Inr ys \<Longrightarrow> mset ys = mset xs"
  by (auto simp add: list_sort_def split: if_splits sum.splits dest: timsort_mset)

section \<open>Properties of the enhanced search: sorting\<close>

lemma score_keys_Inr: "score_keys xs = Inr ks \<Longrightarrow> map score xs = map Inr ks"
  by (induction xs arbitrary: ks) (auto simp add: score_def split: sum.splits)

lemma score_keys_succeeds:
  "\<forall>x\<in>set xs. \<exists>k. score x = Inr k \<Longrightarrow> \<exists>ks. score_keys xs = Inr ks"
  by (induction xs) (auto simp add: score_def)

lemma sort_by_score_mset:
  assumes "sort_by_score xs = Inr ys"
  shows "mset ys = mset xs"
proof -
  from assms obtain ks ps where ks: "score_keys xs = Inr ks"
    and ps: "list_sort (\<lambda>p q. py_lt (fst p) (fst q)) True (zip ks xs) = Inr ps"
    and ys: "ys = map snd ps"
    by (auto simp add: sort_by_score_def split: sum.splits)
  have "length (map score xs) = length (map Inr ks :: (error + json) list)"
    using score_keys_Inr[OF ks] by simp
  then have len: "length ks = length xs" by simp
  have "mset (map snd ps) = mset (map snd (zip ks xs))"
    using list_sort_mset[OF ps] by (metis mset_map)
  also have "\<dots> = mset xs" using len by (simp add: map_snd_zip)
  finally show ?thesis using ys by simp
qed

lemma insort_key_map:
  "map g (insort_key (\<lambda>x. f (g x)) x xs) = insort_key f (g x) (map g xs)"
  by (induction xs) simp_all

lemma sort_key_map: "map g (sort_key (\<lambda>x. f (g x)) xs) = sort_key f (map g xs)"
  by (induction xs) (simp_all add: insort_key_map)

lemma sort_by_score_ranked:
  fixes f :: "json \<Rightarrow> 'k::linorder"
  assumes r: "\<forall>x\<in>set xs. \<forall>y\<in>set xs. score_lt x y = Inr (f x < f y)"
  shows "sort_by_score xs = Inr (rev (sort_key f (rev xs)))"
proof -
  have "\<exists>k. score x = Inr k" if "x \<in> set xs" for x
  proof -
    from r that have "score_lt x x = Inr (f x < f x)" by blast
    then show ?thesis by (auto simp add: score_lt_def split: sum.splits)
  qed
  then obtain ks where ks: "score_keys xs = Inr ks"
    using score_keys_succeeds[of xs] by blast
  note m = score_keys_Inr[OF ks]
  have "length (map score xs) = length (map Inr ks :: (error + json) list)"
    using m by simp
  then have len: "length ks = length xs" by simp
  have pairs: "score (snd p) = Inr (fst p) \<and> snd p \<in> set xs" if "p \<in> set (zip ks xs)" for p
  proof -
    from that obtain i where i: "i < length xs" "p = (ks ! i, xs ! i)"
      using len by (auto simp add: set_zip)
    have "map score xs ! i = map Inr ks ! i" using m by simp
    then have "score (xs ! i) = Inr (ks ! i)" using i len by simp
    then show ?thesis using i by simp
  qed
  have ranked: "\<forall>p\<in>set (zip ks xs). \<forall>q\<in>set (zip ks xs).
                  py_lt (fst p) (fst q) = Inr (f (snd p) < f (snd q))"
  proof (intro ballI)
    fix p q assume p: "p \<in> set (zip ks xs)" and q: "q \<in> set (zip ks xs)"
    from pairs[OF p] pairs[OF q] have "score_lt (snd p) (snd q) = py_lt (fst p) (fst q)"
      by (simp add: score_lt_def)
    then show "py_lt (fst p) (fst q) = Inr (f (snd p) < f (snd q))"
      using r pairs[OF p] pairs[OF q] by simp
  qed
  have "list_sort (\<lambda>p q. py_lt (fst p) (fst q)) True (zip ks xs)
          = Inr (rev (sort_key (\<lambda>p. f (snd p)) (rev (zip ks xs))))"
    using list_sort_ranked[OF ranked, of True] by simp
  moreover have "map snd (rev (sort_key (\<lambda>p. f (snd p)) (rev (zip ks xs))))
                   = rev (sort_key f (rev xs))"
  proof -
    have "map snd (rev (sort_key (\<lambda>p. f (snd p)) (rev (zip ks xs))))
            = rev (map snd (sort_key (\<lambda>p. f (snd p)) (rev (zip ks xs))))"
      by (simp add: rev_map)
    also have "\<dots> = rev (sort_key f (map snd (rev (zip ks xs))))"
      by (simp only: sort_key_map)
    also have "map snd (rev (zip ks xs)) = rev xs"
      using len by (simp add: rev_map[symmetric] map_snd_zip)
    finally show ?thesis .
  qed
  ultimately show ?thesis using ks by (simp add: sort_by_score_def)
qed

lemma ranked_non_increasing:
  fixes f :: "json \<Rightarrow> 'k::linorder"
  assumes r: "\<forall>x\<in>set xs. \<forall>y\<in>set xs. score_lt x y = Inr (f x < f y)"
  shows "non_increasing (rev (sort_key f (rev xs)))"
proof -
  have "sorted_wrt (\<lambda>a b. f a \<le> f b) (sort_key f (rev xs))"
    using sorted_sort_key[of f "rev xs"] by (simp add: sorted_map)
  then have "sorted_wrt (\<lambda>a b. f b \<le> f a) (rev (sort_key f (rev xs)))"
    by (simp add: sorted_wrt_rev)
  then show ?thesis
    unfolding non_increasing_def
    by (rule sorted_wrt_mono_rel[rotated]) (use r in auto)
qed

lemma ranked_ties:
  fixes f :: "json \<Rightarrow> 'k::linorder"
  assumes r: "\<forall>x\<in>set xs. \<forall>y\<in>set xs. score_lt x y = Inr (f x < f y)" and y: "y \<in> set xs"
  shows "filter (\<lambda>x. tie x y) (rev (sort_key f (rev xs))) = filter (\<lambda>x. tie x y) xs"
proof -
  have t: "tie x y \<longleftrightarrow> f x = f y" if "x \<in> set xs" for x
    using r y that by (auto simp add: tie_def)
  have "filter (\<lambda>x. tie x y) (rev (sort_key f (rev xs)))
          = filter (\<lambda>x. f x = f y) (rev (sort_key f (rev xs)))"
    using t by (intro filter_cong) auto
  also have "\<dots> = rev (filter (\<lambda>x. f x = f y) (sort_key f (rev xs)))"
    by (simp add: rev_filter)
  also have "\<dots> = rev (filter (\<lambda>x. f x = f y) (rev xs))"
    by (simp add: sort_key_stable)
  also have "\<dots> = filter (\<lambda>x. f x = f y) xs" by (simp add: rev_filter)
  also have "\<dots> = filter (\<lambda>x. tie x y) xs"
    using t by (intro filter_cong) auto
  finally show ?thesis .
qed

lemma py_lt_numbers:
  "as_number a = Some m \<Longrightarrow> as_number b = Some n \<Longrightarrow> py_lt a b = Inr (number_lt m n)"
  by (cases a; simp; cases b; simp)

lemma well_formed_ranked:
  assumes "well_formed_recipe x" "well_formed_recipe y"
  shows "score_lt x y = Inr (score_value x < score_value y)"
proof -
  from assms(1) obtain a r where a: "score x = Inr a" "as_number a = Some (Finite r)"
    by (auto simp add: well_formed_recipe_def split: sum.splits option.splits number.splits)
  from assms(2) obtain b s where b: "score y = Inr b" "as_number b = Some (Finite s)"
    by (auto simp add: well_formed_recipe_def split: sum.splits option.splits number.splits)
  show ?thesis
    using a b py_lt_numbers[OF a(2) b(2)] by (simp add: score_lt_def score_value_def)
qed


section \<open>Properties of the enhanced search: the merged response\<close>

lemma combine_pool:
  "combine pool n results = Inr (pool', n') \<Longrightarrow>
     pool' = pool @ concat (map pool_items results)
     \<and> n' = n + int (length (filter (\<lambda>r. \<not> failed r) results))"
proof (induction results arbitrary: pool n)
  case Nil
  then show ?case by simp
next
  case (Cons r results)
  show ?case
  proof (cases "results_field r")
    case None
    with Cons show ?thesis by (simp add: pool_items_def failed_def)
  next
    case (Some v)
    with Cons.prems obtain items where items: "iter v = Inr items"
      and run: "combine (pool @ items) (n + 1) results = Inr (pool', n')"
      by (auto split: sum.splits)
    from Cons.IH[OF run] Some items show ?thesis by (simp add: pool_items_def failed_def)
  qed
qed





lemma enhanced_search_merge:
  "fst (enhanced_search w ms request) =
     (case merge_results request ms 3 (map (sub_search w) (tasks request)) of
        Inl e \<Rightarrow> Inl (HTTPException 500 ''Enhanced search failed'')
      | Inr response \<Rightarrow> Inr response)"
proof -
  obtain results w' where g: "gather w (tasks request) = (results, w')"
    by (cases "gather w (tasks request)")
  then have "results = map (sub_search w) (tasks request)"
    using gather_outcomes[of w "tasks request"] by simp
  with g show ?thesis by (simp add: enhanced_search_def length_tasks split: sum.splits)
qed

lemma slice_to_truncated: "slice_to xs k = truncated k xs"
proof (cases "k < 0")
  case True
  have "rev (drop (nat (- k)) (rev xs)) = take (length xs - nat (- k)) xs"
    by (simp add: rev_drop)
  moreover have "nat (int (length xs) + k) = length xs - nat (- k)" using True by linarith
  ultimately show ?thesis using True by (simp add: slice_to_def truncated_def)
next
  case False
  then show ?thesis by (simp add: slice_to_def truncated_def)
qed

lemma truncated_take: "\<exists>n. truncated k xs = take n xs"
  by (auto simp add: truncated_def rev_drop)

lemma merge_results_Inr:
  assumes "merge_results request ms n results = Inr response"
  shows "\<exists>s. (\<forall>x\<in>set (concat (map pool_items results)). \<exists>h. recipe_key x = Inr h)
         \<and> sort_by_score (keep_first recipe_key (concat (map pool_items results))) = Inr s
         \<and> response =
             JObj [(''query'', JStr (query request)),
                   (''search_type'', JStr ''enhanced_parallel''),
                   (''results'', JArr (truncated (SearchRequest.limit request) s)),
                   (''count'',
                      JInt (int (length (truncated (SearchRequest.limit request) s)))),
                   (''successful_searches'',
                      JInt (int (length (filter (\<lambda>r. \<not> failed r) results)))),
                   (''total_searches'', JInt (int n)),
                   (''cached'', JBool False),
                   (''response_time_ms'', JInt ms)]"
proof -
  from assms obtain pool successful where c: "combine [] 0 results = Inr (pool, successful)"
    by (auto simp add: merge_results_def split: sum.splits)
  then have pool: "pool = concat (map pool_items results)"
    and successful: "successful = int (length (filter (\<lambda>r. \<not> failed r) results))"
    using combine_pool[OF c] by simp_all
  from assms c obtain u where u: "unique_loop {} [] pool = Inr u"
    by (auto simp add: merge_results_def split: sum.splits)
  from assms c u obtain s where s: "sort_by_score u = Inr s"
    by (auto simp add: merge_results_def split: sum.splits)
  from assms c u s show ?thesis
    using unique_loop_pool[OF u] unique_loop_keys[OF u]
    unfolding pool successful
    by (auto simp add: merge_results_def Let_def slice_to_truncated)
qed


section \<open>Properties of the enhanced search: uniqueness, order and partial failure\<close>

lemma two_of_three_response:
  "fst (enhanced_search two_of_three 7 \<lparr>query = ''pasta'', limit = 6\<rparr>) =
     Inr (JObj [(''query'', JStr ''pasta''),
                (''search_type'', JStr ''enhanced_parallel''),
                (''results'', JArr [recipe 2 0.9, recipe 1 0.5, recipe 3 0.5]),
                (''count'', JInt 3),
                (''successful_searches'', JInt 2),
                (''total_searches'', JInt 3),
                (''cached'', JBool False),
                (''response_time_ms'', JInt 7)])"
  by code_simp

lemma two_of_three_pool:
  "keep_first recipe_key
     (concat (map (pool_items \<circ> sub_search two_of_three)
                (tasks \<lparr>query = ''pasta'', limit = 6\<rparr>)))
     = [recipe 1 0.5, recipe 2 0.9, recipe 3 0.5]"
  by code_simp

text \<open>
  C1. In every response of the enhanced search no two entries of \<open>results\<close> have the
  same \<open>recipe_id\<close>. The pool is the concatenation of the result lists in strategy order
  (general, ingredients, dish). Of the entries of the pool with one \<open>recipe_id\<close> the
  first is kept and every later one discarded, whatever its score: \<open>results\<close> is the
  truncation to the requested limit of a rearrangement of the entries kept, each entry
  of \<open>results\<close> is the first of the pool with its \<open>recipe_id\<close>, and before the truncation
  every \<open>recipe_id\<close> of the pool is present.
\<close>

theorem enhanced_search_results_unique:
  assumes "fst (enhanced_search w ms request) = Inr response"
  shows "\<exists>results sorted_results.
           getitem response ''results'' = Inr (JArr results)
         \<and> results = truncated (SearchRequest.limit request) sorted_results
         \<and> mset sorted_results =
             mset (keep_first recipe_key
                     (concat (map (pool_items \<circ> sub_search w) (tasks request))))
         \<and> map fst (tasks request) =
             [''/search/general'', ''/search/ingredients'', ''/search/dish'']
         \<and> distinct (map recipe_key results)
         \<and> (\<forall>r\<in>set results.
               find (\<lambda>x. recipe_key x = recipe_key r)
                 (concat (map (pool_items \<circ> sub_search w) (tasks request))) = Some r)
         \<and> (\<forall>x\<in>set (concat (map (pool_items \<circ> sub_search w) (tasks request))).
               \<exists>r\<in>set sorted_results. recipe_key r = recipe_key x)"
proof -
  let ?pool = "concat (map pool_items (map (sub_search w) (tasks request)))"
  let ?u = "keep_first recipe_key ?pool"
  from assms have "merge_results request ms 3 (map (sub_search w) (tasks request)) = Inr response"
    by (simp add: enhanced_search_merge split: sum.splits)
  from merge_results_Inr[OF this] obtain s where
    s: "sort_by_score ?u = Inr s"
    and response: "getitem response ''results''
                     = Inr (JArr (truncated (SearchRequest.limit request) s))"
    by auto
  let ?results = "truncated (SearchRequest.limit request) s"
  obtain n where n: "?results = take n s" using truncated_take by blast
  have perm: "mset s = mset ?u" by (rule sort_by_score_mset[OF s])
  then have "mset (map recipe_key s) = mset (map recipe_key ?u)" by simp
  then have "distinct (map recipe_key s)"
    using distinct_keep_first[of recipe_key ?pool] by (metis mset_eq_imp_distinct_iff)
  then have d: "distinct (map recipe_key ?results)"
    unfolding n by (simp add: take_map[symmetric])
  have su: "set s = set ?u" using perm by (rule mset_eq_setD)
  then have "set ?results \<subseteq> set ?u"
    unfolding n using set_take_subset[of n s] by simp
  then have f: "\<forall>r\<in>set ?results. find (\<lambda>x. recipe_key x = recipe_key r) ?pool = Some r"
    using find_keep_first[of _ recipe_key ?pool] by blast
  have "recipe_key ` set s = recipe_key ` set ?pool"
    using su keys_keep_first[of recipe_key ?pool] by simp
  then have all: "\<forall>x\<in>set ?pool. \<exists>r\<in>set s. recipe_key r = recipe_key x"
    by (metis (no_types, lifting) image_iff)
  have t: "map fst (tasks request) =
             [''/search/general'', ''/search/ingredients'', ''/search/dish'']"
    by (simp add: tasks_def)
  from response perm d f all t show ?thesis
    by (intro exI[of _ ?results] exI[of _ s]) (simp add: comp_def)
qed

theorem enhanced_search_results_unique_witness:
  "\<exists>results sorted_results.
     getitem (JObj [(''query'', JStr ''pasta''),
                (''search_type'', JStr ''enhanced_parallel''),
                (''results'', JArr [recipe 2 0.9, recipe 1 0.5, recipe 3 0.5]),
                (''count'', JInt 3),
                (''successful_searches'', JInt 2),
                (''total_searches'', JInt 3),
                (''cached'', JBool False),
                (''response_time_ms'', JInt 7)]) ''results'' = Inr (JArr results)
   \<and> results = truncated (SearchRequest.limit \<lparr>query = ''pasta'', limit = 6\<rparr>) sorted_results
   \<and> mset sorted_results =
       mset (keep_first recipe_key
               (concat (map (pool_items \<circ> sub_search two_of_three)
                          (tasks \<lparr>query = ''pasta'', limit = 6\<rparr>))))
   \<and> map fst (tasks \<lparr>query = ''pasta'', limit = 6\<rparr>) =
       [''/search/general'', ''/search/ingredients'', ''/search/dish'']
   \<and> distinct (map recipe_key results)
   \<and> (\<forall>r\<in>set results.
         find (\<lambda>x. recipe_key x = recipe_key r)
           (concat (map (pool_items \<circ> sub_search two_of_three)
                      (tasks \<lparr>query = ''pasta'', limit = 6\<rparr>))) = Some r)
   \<and> (\<forall>x\<in>set (concat (map (pool_items \<circ> sub_search two_of_three)
                          (tasks \<lparr>query = ''pasta'', limit = 6\<rparr>))).
         \<exists>r\<in>set sorted_results. recipe_key r = recipe_key x)"
  by (rule enhanced_search_results_unique[OF two_of_three_response])

text \<open>
  C2, as the specification states it, does not hold of the handler: \<open><\<close> does not order
  NaN, and the sort leaves the scores 0.5, NaN, 0.9 of a pool in this order, so the
  response lists the score 0.5 before the higher score 0.9.
\<close>

theorem enhanced_search_nan_not_sorted:
  "fst (enhanced_search nan_score 7 \<lparr>query = ''pasta'', limit = 10\<rparr>) =
     Inr (JObj [(''query'', JStr ''pasta''),
                (''search_type'', JStr ''enhanced_parallel''),
                (''results'', JArr [recipe 1 0.5, nan_recipe 2, recipe 3 0.9]),
                (''count'', JInt 3),
                (''successful_searches'', JInt 1),
                (''total_searches'', JInt 3),
                (''cached'', JBool False),
                (''response_time_ms'', JInt 7)])
   \<and> score_lt (recipe 1 0.5) (recipe 3 0.9) = Inr True
   \<and> \<not> non_increasing [recipe 1 0.5, nan_recipe 2, recipe 3 0.9]"
  by code_simp

text \<open>
  C2, amended. In every response of the enhanced search for which \<open><\<close> ranks the scores
  of the deduplicated pool (as it does when they are numbers other than NaN), the scores
  do not increase along \<open>results\<close>: the deduplicated pool is sorted by
  \<open>similarity_score\<close>, highest first, by a stable sort (the entries whose scores tie keep
  the order they had), and the sorted list is then cut to the requested limit.
\<close>

theorem enhanced_search_results_sorted:
  fixes grade :: "json \<Rightarrow> 'k::linorder"
  assumes "fst (enhanced_search w ms request) = Inr response"
    and "\<forall>x\<in>set (keep_first recipe_key
                    (concat (map (pool_items \<circ> sub_search w) (tasks request)))).
         \<forall>y\<in>set (keep_first recipe_key
                    (concat (map (pool_items \<circ> sub_search w) (tasks request)))).
           score_lt x y = Inr (grade x < grade y)"
  shows "\<exists>sorted_results results.
           mset sorted_results =
             mset (keep_first recipe_key
                     (concat (map (pool_items \<circ> sub_search w) (tasks request))))
         \<and> non_increasing sorted_results
         \<and> (\<forall>y\<in>set (keep_first recipe_key
                        (concat (map (pool_items \<circ> sub_search w) (tasks request)))).
               filter (\<lambda>x. tie x y) sorted_results
                 = filter (\<lambda>x. tie x y)
                     (keep_first recipe_key
                        (concat (map (pool_items \<circ> sub_search w) (tasks request)))))
         \<and> results = truncated (SearchRequest.limit request) sorted_results
         \<and> getitem response ''results'' = Inr (JArr results)
         \<and> non_increasing results"
proof -
  let ?pool = "concat (map pool_items (map (sub_search w) (tasks request)))"
  let ?u = "keep_first recipe_key ?pool"
  let ?s = "rev (sort_key grade (rev ?u))"
  have r: "\<forall>x\<in>set ?u. \<forall>y\<in>set ?u. score_lt x y = Inr (grade x < grade y)"
    using assms(2) by (simp add: comp_def)
  from assms(1) have
    "merge_results request ms 3 (map (sub_search w) (tasks request)) = Inr response"
    by (simp add: enhanced_search_merge split: sum.splits)
  from merge_results_Inr[OF this] obtain s where
    s: "sort_by_score ?u = Inr s"
    and response: "getitem response ''results''
                     = Inr (JArr (truncated (SearchRequest.limit request) s))"
    by auto
  from s sort_by_score_ranked[OF r] have s': "s = ?s" by simp
  let ?results = "truncated (SearchRequest.limit request) ?s"
  obtain n where n: "?results = take n ?s" using truncated_take by blast
  have ni: "non_increasing ?s" by (rule ranked_non_increasing[OF r])
  then have "non_increasing ?results"
    unfolding n non_increasing_def by (rule sorted_wrt_take)
  moreover have "\<forall>y\<in>set ?u. filter (\<lambda>x. tie x y) ?s = filter (\<lambda>x. tie x y) ?u"
    using ranked_ties[OF r] by blast
  moreover have "mset ?s = mset ?u" by simp
  ultimately show ?thesis
    using ni response unfolding s'
    by (intro exI[of _ ?s] exI[of _ ?results]) (simp add: comp_def)
qed

theorem enhanced_search_results_sorted_witness:
  "\<exists>sorted_results results.
     mset sorted_results =
       mset (keep_first recipe_key
               (concat (map (pool_items \<circ> sub_search two_of_three)
                          (tasks \<lparr>query = ''pasta'', limit = 6\<rparr>))))
   \<and> non_increasing sorted_results
   \<and> (\<forall>y\<in>set (keep_first recipe_key
                  (concat (map (pool_items \<circ> sub_search two_of_three)
                             (tasks \<lparr>query = ''pasta'', limit = 6\<rparr>)))).
         filter (\<lambda>x. tie x y) sorted_results
           = filter (\<lambda>x. tie x y)
               (keep_first recipe_key
                  (concat (map (pool_items \<circ> sub_search two_of_three)
                             (tasks \<lparr>query = ''pasta'', limit = 6\<rparr>)))))
   \<and> results = truncated (SearchRequest.limit \<lparr>query = ''pasta'', limit = 6\<rparr>) sorted_results
   \<and> getitem (JObj [(''query'', JStr ''pasta''),
                (''search_type'', JStr ''enhanced_parallel''),
                (''results'', JArr [recipe 2 0.9, recipe 1 0.5, recipe 3 0.5]),
                (''count'', JInt 3),
                (''successful_searches'', JInt 2),
                (''total_searches'', JInt 3),
                (''cached'', JBool False),
                (''response_time_ms'', JInt 7)]) ''results'' = Inr (JArr results)
   \<and> non_increasing results"
proof -
  have wf: "\<forall>x\<in>set [recipe 1 0.5, recipe 2 0.9, recipe 3 0.5]. well_formed_recipe x"
    by code_simp
  have h: "\<forall>x\<in>set (keep_first recipe_key
                     (concat (map (pool_items \<circ> sub_search two_of_three)
                                (tasks \<lparr>query = ''pasta'', limit = 6\<rparr>)))).
           \<forall>y\<in>set (keep_first recipe_key
                     (concat (map (pool_items \<circ> sub_search two_of_three)
                                (tasks \<lparr>query = ''pasta'', limit = 6\<rparr>)))).
             score_lt x y = Inr (score_value x < score_value y)"
    unfolding two_of_three_pool using wf well_formed_ranked by blast
  show ?thesis by (rule enhanced_search_results_sorted[OF two_of_three_response h])
qed




end
